theory Spec2Isabelle
  imports Complex_Main "HOL-Library.Sublist" "HOL-Library.Option_ord"
begin

section \<open>Evaluation records and traces\<close>

text \<open>
  The plotting types of \<^verbatim>\<open>configs/plotting/types.py\<close>. A \<^verbatim>\<open>Result\<close> is one
  finished evaluation of one configuration. A numeric attribute is modelled by the number
  it denotes (\<open>real\<close>; no NaN, no infinities, no rounding), whether Python holds it as an
  int or as a float: the annotations of the dataclass are not enforced, \<^verbatim>\<open>1 == 1.0\<close> in
  Python, and \<^verbatim>\<open>rescale_xaxis\<close> stores a float product in whichever attribute it is
  given. An attribute that is \<^verbatim>\<open>None\<close> is \<open>None\<close>. The attribute \<^verbatim>\<open>id\<close> is called
  \<open>config_id\<close> here, as in the \<^verbatim>\<open>df\<close> property of the source.
\<close>

datatype Result = Result
  (config_id: real)
  (bracket: "real option")
  (loss: real)
  (cost: real)
  (val_score: real)
  (test_score: real)
  (fidelity: real)
  (start_time: real)
  (end_time: real)
  (max_fidelity_loss: real)
  (max_fidelity_cost: real)
  (cumulated_fidelity: "real option")
  (start_time_since_global_start: "real option")
  (end_time_since_global_start: "real option")
  (continued_from: "Result option")
  (process_id: "real option")

record Trace =
  results :: "Result list"

text \<open>
  Every exception the modelled code can raise. The assertions of the source are told apart
  by the place that raises them.
\<close>

datatype assertion =
    Already_continued
  | Length_mismatch
  | Process_ids_differ
  | Process_id_missing
  | Yaxis_not_supported
  | Results_dir_missing

datatype error =
    AssertionError assertion
  | ValueError
  | IndexError
  | TypeError
  | KeyError
  | NotImplementedError
  | FileNotFoundError

subsection \<open>Python built-ins used by the transformations\<close>

text \<open>
  \<^verbatim>\<open>sorted(xs, key=f)\<close> is a stable sort, as \<^const>\<open>sort_key\<close> is. \<^verbatim>\<open>itertools.groupby\<close>
  cuts a list into its maximal runs of equal keys.
\<close>

function groupby :: "('a \<Rightarrow> 'k) \<Rightarrow> 'a list \<Rightarrow> ('k \<times> 'a list) list" where
  "groupby f [] = []"
| "groupby f (x # xs) =
     (f x, x # takeWhile (\<lambda>y. f y = f x) xs) # groupby f (dropWhile (\<lambda>y. f y = f x) xs)"
  by pat_completeness auto
termination
  by (relation "measure (\<lambda>(f, xs). length xs)") (auto simp: length_dropWhile_le less_Suc_eq_le)

text \<open>
  A dict built from key/value pairs in order: a key that is already there keeps its place
  and gets the new value, a new key goes to the end.
\<close>

fun dict_set :: "'k \<Rightarrow> 'v \<Rightarrow> ('k \<times> 'v) list \<Rightarrow> ('k \<times> 'v) list" where
  "dict_set k v [] = [(k, v)]"
| "dict_set k v (p # ps) = (if fst p = k then (k, v) # ps else p # dict_set k v ps)"

definition dict_of :: "('k \<times> 'v) list \<Rightarrow> ('k \<times> 'v) list" where
  "dict_of kvs = fold (\<lambda>(k, v) d. dict_set k v d) kvs []"

definition dict_values :: "('k \<times> 'v) list \<Rightarrow> 'v list" where
  "dict_values d = map snd d"

text \<open>\<^verbatim>\<open>more_itertools.pairwise\<close>: the consecutive pairs of a list.\<close>

definition pairwise_py :: "'a list \<Rightarrow> ('a \<times> 'a) list" where
  "pairwise_py xs = zip xs (tl xs)"

subsection \<open>Continuation stitching\<close>

text \<open>
  \<^verbatim>\<open>Result.continue_from\<close>: asserts that \<^verbatim>\<open>self\<close> has no continuation yet, then
  \<^verbatim>\<open>replace\<close>s fidelity, cost and \<^verbatim>\<open>continued_from\<close>.
\<close>

definition continue_from :: "Result \<Rightarrow> Result \<Rightarrow> error + Result" where
  "continue_from self other =
     (if continued_from self \<noteq> None then Inl (AssertionError Already_continued)
      else Inr (Result (config_id self) (bracket self) (loss self)
                  (cost self - cost other)
                  (val_score self) (test_score self)
                  (fidelity self - fidelity other)
                  (start_time self) (end_time self)
                  (max_fidelity_loss self) (max_fidelity_cost self)
                  (cumulated_fidelity self)
                  (start_time_since_global_start self) (end_time_since_global_start self)
                  (Some other)
                  (process_id self)))"

text \<open>The local function \<^verbatim>\<open>bracket\<close> of \<^verbatim>\<open>with_continuations\<close>.\<close>

definition bracket_key :: "Result \<Rightarrow> real" where
  "bracket_key res = (case bracket res of None \<Rightarrow> 0 | Some b \<Rightarrow> b)"

text \<open>
  The inner loop over \<^verbatim>\<open>pairwise(config_results)\<close>, appending to \<^verbatim>\<open>continuations\<close>;
  it stops at the first failed assertion.
\<close>

fun continue_pairs :: "(Result \<times> Result) list \<Rightarrow> Result list \<Rightarrow> error + Result list" where
  "continue_pairs [] continuations = Inr continuations"
| "continue_pairs ((lower_bracket, higher_bracket) # ps) continuations =
     (case continue_from higher_bracket lower_bracket of
        Inl e \<Rightarrow> Inl e
      | Inr continued_result \<Rightarrow> continue_pairs ps (continuations @ [continued_result]))"

text \<open>The outer loop over \<^verbatim>\<open>results.values()\<close>.\<close>

fun stitch_groups :: "Result list list \<Rightarrow> Result list \<Rightarrow> error + Result list" where
  "stitch_groups [] continuations = Inr continuations"
| "stitch_groups (config_results # gs) continuations =
     (case config_results of
        [] \<Rightarrow> Inl IndexError
      | first # _ \<Rightarrow>
          (if length config_results = 1 then stitch_groups gs (continuations @ [first])
           else (case continue_pairs (pairwise_py config_results) (continuations @ [first]) of
                   Inl e \<Rightarrow> Inl e
                 | Inr continuations' \<Rightarrow> stitch_groups gs continuations')))"

definition config_groups :: "Result list \<Rightarrow> Result list list" where
  "config_groups rs =
     dict_values (dict_of (map (\<lambda>(config_id, results). (config_id, sort_key bracket_key results))
                             (groupby config_id (sort_key config_id rs))))"

definition with_continuations :: "Trace \<Rightarrow> error + Trace" where
  "with_continuations self =
     (let trace_results = sort_key config_id (results self) in
      case stitch_groups (config_groups (results self)) [] of
        Inl e \<Rightarrow> Inl e
      | Inr continuations \<Rightarrow>
          if length trace_results \<noteq> length continuations
          then Inl (AssertionError Length_mismatch)
          else Inr (self\<lparr>results := sort_key end_time continuations\<rparr>))"

text \<open>
  What the two loops leave for one group \<open>g\<close> of records: the group's first record, then
  one continued record for each consecutive pair of the group.
\<close>

definition stitched_as :: "Result list \<Rightarrow> Result list \<Rightarrow> bool" where
  "stitched_as g out \<longleftrightarrow>
     (\<exists>cs. out = hd g # cs \<and>
           list_all2 (\<lambda>(lower, higher) c. continue_from higher lower = Inr c) (pairwise_py g) cs)"

subsection \<open>Continuation stitching, as the specification words it\<close>

text \<open>
  \<open>is_continuation lower higher r\<close>: the record \<open>r\<close> has the fidelity and cost of \<open>higher\<close>
  less those of \<open>lower\<close>, continues from \<open>lower\<close>, and has every other field of \<open>higher\<close>.
  \<open>bracket_index\<close> is the bracket index of a record, an absent bracket read as 0.
  \<open>spec_group rs i\<close> is the group of the configuration identifier \<open>i\<close>: the records of
  \<open>rs\<close> with that identifier, sorted by bracket index ascending (records of equal bracket
  index in the order they have in \<open>rs\<close>). \<open>spec_stitched g out\<close>: the output keeps the
  first record of \<open>g\<close> and holds a continuation for every consecutive pair.
\<close>

definition bracket_index :: "Result \<Rightarrow> real" where
  "bracket_index r = (if bracket r = None then 0 else the (bracket r))"

definition is_continuation :: "Result \<Rightarrow> Result \<Rightarrow> Result \<Rightarrow> bool" where
  "is_continuation lower higher r \<longleftrightarrow>
     fidelity r = fidelity higher - fidelity lower \<and>
     cost r = cost higher - cost lower \<and>
     continued_from r = Some lower \<and>
     config_id r = config_id higher \<and> bracket r = bracket higher \<and> loss r = loss higher \<and>
     val_score r = val_score higher \<and> test_score r = test_score higher \<and>
     start_time r = start_time higher \<and> end_time r = end_time higher \<and>
     max_fidelity_loss r = max_fidelity_loss higher \<and>
     max_fidelity_cost r = max_fidelity_cost higher \<and>
     cumulated_fidelity r = cumulated_fidelity higher \<and>
     start_time_since_global_start r = start_time_since_global_start higher \<and>
     end_time_since_global_start r = end_time_since_global_start higher \<and>
     process_id r = process_id higher"

definition spec_group :: "Result list \<Rightarrow> real \<Rightarrow> Result list" where
  "spec_group rs i = sort_key bracket_index (filter (\<lambda>r. config_id r = i) rs)"

definition spec_stitched :: "Result list \<Rightarrow> Result list \<Rightarrow> bool" where
  "spec_stitched g out \<longleftrightarrow>
     length out = length g \<and> out ! 0 = g ! 0 \<and>
     (\<forall>j. Suc j < length g \<longrightarrow> is_continuation (g ! j) (g ! Suc j) (out ! Suc j))"

subsection \<open>Attributes read by name\<close>

text \<open>
  The transformations read an attribute by its name (\<^verbatim>\<open>getattr(r, xaxis)\<close>). The names are
  those of the numeric attributes of a record; the value is \<open>None\<close> where the attribute is
  \<^verbatim>\<open>None\<close>. \<^verbatim>\<open>continued_from\<close> is not a number and is left out.
\<close>

datatype axis =
    Config_id | Bracket | Loss | Cost | Val_score | Test_score | Fidelity
  | Start_time | End_time | Max_fidelity_loss | Max_fidelity_cost
  | Cumulated_fidelity | Start_time_since_global_start | End_time_since_global_start
  | Process_id

fun getattr :: "Result \<Rightarrow> axis \<Rightarrow> real option" where
  "getattr r Config_id = Some (config_id r)"
| "getattr r Bracket = bracket r"
| "getattr r Loss = Some (loss r)"
| "getattr r Cost = Some (cost r)"
| "getattr r Val_score = Some (val_score r)"
| "getattr r Test_score = Some (test_score r)"
| "getattr r Fidelity = Some (fidelity r)"
| "getattr r Start_time = Some (start_time r)"
| "getattr r End_time = Some (end_time r)"
| "getattr r Max_fidelity_loss = Some (max_fidelity_loss r)"
| "getattr r Max_fidelity_cost = Some (max_fidelity_cost r)"
| "getattr r Cumulated_fidelity = cumulated_fidelity r"
| "getattr r Start_time_since_global_start = start_time_since_global_start r"
| "getattr r End_time_since_global_start = end_time_since_global_start r"
| "getattr r Process_id = process_id r"

text \<open>
  \<^verbatim>\<open>sorted(xs, key=f)\<close> where a key may be \<^verbatim>\<open>None\<close>: Python compares every element of a
  list of two or more with some other element, and a comparison with \<^verbatim>\<open>None\<close> raises
  \<^verbatim>\<open>TypeError\<close>; a list of at most one element is returned without any comparison.
  \<open>key_value\<close> reads a key that is present.
\<close>

definition key_value :: "real option \<Rightarrow> real" where
  "key_value k = (case k of Some v \<Rightarrow> v | None \<Rightarrow> 0)"

definition sorted_by :: "('a \<Rightarrow> real option) \<Rightarrow> 'a list \<Rightarrow> error + 'a list" where
  "sorted_by key xs =
     (if 2 \<le> length xs \<and> list_ex (\<lambda>x. key x = None) xs then Inl TypeError
      else Inr (sort_key (\<lambda>x. key_value (key x)) xs))"

text \<open>
  \<^verbatim>\<open>min(xs, key=f)\<close>: the first element with the least key; \<^verbatim>\<open>ValueError\<close> on an empty
  argument.
\<close>

definition min_by :: "('a \<Rightarrow> real) \<Rightarrow> 'a list \<Rightarrow> error + 'a" where
  "min_by key xs =
     (case xs of
        [] \<Rightarrow> Inl ValueError
      | x # rest \<Rightarrow> Inr (fold (\<lambda>y m. if key y < key m then y else m) rest x))"

text \<open>A comprehension whose body may raise: left to right, stopping at the first error.\<close>

fun map_err :: "('a \<Rightarrow> error + 'b) \<Rightarrow> 'a list \<Rightarrow> error + 'b list" where
  "map_err f [] = Inr []"
| "map_err f (x # xs) =
     (case f x of
        Inl e \<Rightarrow> Inl e
      | Inr y \<Rightarrow> (case map_err f xs of Inl e \<Rightarrow> Inl e | Inr ys \<Rightarrow> Inr (y # ys)))"

subsection \<open>Cumulative fidelity\<close>

text \<open>\<^verbatim>\<open>more_itertools.all_equal\<close> and \<^verbatim>\<open>itertools.accumulate\<close>.\<close>

definition all_equal :: "'a list \<Rightarrow> bool" where
  "all_equal xs = (case xs of [] \<Rightarrow> True | x # rest \<Rightarrow> list_all (\<lambda>y. y = x) rest)"

fun accumulate_from :: "real \<Rightarrow> real list \<Rightarrow> real list" where
  "accumulate_from acc [] = []"
| "accumulate_from acc (x # xs) = (acc + x) # accumulate_from (acc + x) xs"

definition accumulate :: "real list \<Rightarrow> real list" where
  "accumulate xs = (case xs of [] \<Rightarrow> [] | x # rest \<Rightarrow> x # accumulate_from x rest)"

text \<open>\<^verbatim>\<open>r.mutate(cumulated_fidelity=f)\<close>.\<close>

definition mutate_cumulated_fidelity :: "Result \<Rightarrow> real option \<Rightarrow> Result" where
  "mutate_cumulated_fidelity r f =
     Result (config_id r) (bracket r) (loss r) (cost r) (val_score r) (test_score r)
       (fidelity r) (start_time r) (end_time r) (max_fidelity_loss r) (max_fidelity_cost r)
       f
       (start_time_since_global_start r) (end_time_since_global_start r)
       (continued_from r) (process_id r)"

text \<open>
  \<^verbatim>\<open>with_cumulative_fidelity\<close> when \<^verbatim>\<open>n_workers\<close> is \<^verbatim>\<open>None\<close> or 1: the assertion on the
  worker identifiers, then the running sum in end-time order. The multi-worker branch calls
  the method again on each worker's records with no argument, which is this branch.
\<close>

definition with_cumulative_fidelity_single :: "Trace \<Rightarrow> error + Trace" where
  "with_cumulative_fidelity_single self =
     (if \<not> all_equal (map process_id (results self))
      then Inl (AssertionError Process_ids_differ)
      else (let results = sort_key end_time (results self);
                cumulated_fidelities = accumulate (map fidelity results);
                cumulated_results =
                  map (\<lambda>(r, f). mutate_cumulated_fidelity r (Some f))
                    (zip results cumulated_fidelities)
            in Inr (self\<lparr>results := cumulated_results\<rparr>)))"

text \<open>
  The multi-worker branch up to the assertion on \<^verbatim>\<open>yaxis\<close>: sort by worker, one trace per
  worker, cumulate each, and put the records of all of them into one list.
\<close>

definition merged_cumulated :: "Result list \<Rightarrow> error + Result list" where
  "merged_cumulated rs =
     (let results = sort_key (\<lambda>r. case process_id r of Some p \<Rightarrow> p | None \<Rightarrow> 0) rs;
          results_per_process =
            dict_of (map (\<lambda>(pid, presults). (pid, \<lparr>results = presults\<rparr>))
                       (groupby process_id results))
      in case map_err (\<lambda>(pid, trace).
                 case with_cumulative_fidelity_single trace of
                   Inl e \<Rightarrow> Inl e
                 | Inr t \<Rightarrow> Inr (pid, t)) results_per_process of
           Inl e \<Rightarrow> Inl e
         | Inr cumulated_results_per_process \<Rightarrow>
             Inr (concat (map Trace.results (dict_values (dict_of cumulated_results_per_process)))))"

text \<open>
  The rest of the multi-worker branch, reached with \<^verbatim>\<open>yaxis == "loss"\<close>: sort by cumulated
  fidelity, keep of each run of equal cumulated fidelity the record of least loss, sort
  again.
\<close>

definition dedup_min_loss :: "Result list \<Rightarrow> error + Result list" where
  "dedup_min_loss cumulated_results =
     (case sorted_by cumulated_fidelity cumulated_results of
        Inl e \<Rightarrow> Inl e
      | Inr sorted_results \<Rightarrow>
          (case map_err (\<lambda>(k, results). min_by loss results)
                  (groupby cumulated_fidelity sorted_results) of
             Inl e \<Rightarrow> Inl e
           | Inr best \<Rightarrow> sorted_by cumulated_fidelity best))"

text \<open>
  \<^verbatim>\<open>Trace.with_cumulative_fidelity(n_workers, yaxis)\<close>. Every worker count other than
  \<^verbatim>\<open>None\<close> and 1 takes the multi-worker branch; the single-worker branch never looks at
  \<^verbatim>\<open>yaxis\<close>.
\<close>

definition with_cumulative_fidelity :: "Trace \<Rightarrow> int option \<Rightarrow> axis \<Rightarrow> error + Trace" where
  "with_cumulative_fidelity self n_workers yaxis =
     (if n_workers = None \<or> n_workers = Some 1 then with_cumulative_fidelity_single self
      else if \<not> list_all (\<lambda>r. process_id r \<noteq> None) (results self)
      then Inl (AssertionError Process_id_missing)
      else (case merged_cumulated (results self) of
              Inl e \<Rightarrow> Inl e
            | Inr cumulated_results \<Rightarrow>
                if yaxis \<noteq> Loss then Inl (AssertionError Yaxis_not_supported)
                else (case dedup_min_loss cumulated_results of
                        Inl e \<Rightarrow> Inl e
                      | Inr deduplicated \<Rightarrow> Inr (self\<lparr>results := deduplicated\<rparr>))))"

subsection \<open>Incumbent extraction and range filter\<close>

text \<open>
  The loop of \<^verbatim>\<open>incumbent_trace\<close> over \<^verbatim>\<open>results[1:]\<close>, with its two variables
  \<^verbatim>\<open>incumbent\<close> and \<^verbatim>\<open>incumbents\<close>.
\<close>

fun incumbent_loop :: "Result list \<Rightarrow> Result \<Rightarrow> Result list \<Rightarrow> Result list" where
  "incumbent_loop [] incumbent incumbents = incumbents"
| "incumbent_loop (result # rest) incumbent incumbents =
     (if loss result < loss incumbent
      then incumbent_loop rest result (incumbents @ [result])
      else incumbent_loop rest incumbent incumbents)"

definition incumbent_trace :: "Trace \<Rightarrow> axis \<Rightarrow> axis \<Rightarrow> error + Trace" where
  "incumbent_trace self xaxis yaxis =
     (if yaxis \<noteq> Loss then Inl NotImplementedError
      else (case sorted_by (\<lambda>r. getattr r xaxis) (results self) of
              Inl e \<Rightarrow> Inl e
            | Inr sorted_results \<Rightarrow>
                (case sorted_results of
                   [] \<Rightarrow> Inl IndexError
                 | incumbent # rest \<Rightarrow>
                     Inr (self\<lparr>results := incumbent_loop rest incumbent [incumbent]\<rparr>))))"

text \<open>
  \<^verbatim>\<open>in_range\<close>: the chained comparison \<^verbatim>\<open>low <= getattr(result, xaxis) <= high\<close> raises
  \<^verbatim>\<open>TypeError\<close> on a record whose attribute is \<^verbatim>\<open>None\<close>.
\<close>

definition in_range :: "Trace \<Rightarrow> real \<times> real \<Rightarrow> axis \<Rightarrow> error + Trace" where
  "in_range self bounds xaxis =
     (case bounds of (low, high) \<Rightarrow>
        if list_ex (\<lambda>r. getattr r xaxis = None) (results self) then Inl TypeError
        else (case sorted_by (\<lambda>r. getattr r xaxis)
                     (filter (\<lambda>result. low \<le> key_value (getattr result xaxis) \<and>
                                        key_value (getattr result xaxis) \<le> high)
                        (results self)) of
                Inl e \<Rightarrow> Inl e
              | Inr sorted_results \<Rightarrow> Inr (self\<lparr>results := sorted_results\<rparr>)))"

subsection \<open>Rescaling an axis\<close>



subsection \<open>Incumbent extraction, as the specification words it\<close>

text \<open>
  \<open>improvements inc rs\<close> are the records the loop appends when it starts on \<open>rs\<close> with the
  incumbent \<open>inc\<close>. \<open>strict_improvers seen rs\<close> keeps of \<open>rs\<close> exactly the records whose loss
  is strictly below the loss of every record before them (\<open>seen\<close> first, then the earlier
  records of \<open>rs\<close>): the records that strictly improve the running incumbent.
\<close>

fun improvements :: "Result \<Rightarrow> Result list \<Rightarrow> Result list" where
  "improvements inc [] = []"
| "improvements inc (r # rs) =
     (if loss r < loss inc then r # improvements r rs else improvements inc rs)"

fun strict_improvers :: "Result list \<Rightarrow> Result list \<Rightarrow> Result list" where
  "strict_improvers seen [] = []"
| "strict_improvers seen (r # rs) =
     (if \<forall>q\<in>set seen. loss r < loss q then r # strict_improvers (seen @ [r]) rs
      else strict_improvers (seen @ [r]) rs)"

subsection \<open>Loading a trace\<close>

text \<open>
  What \<^verbatim>\<open>Trace.load\<close> finds under the directory of one (benchmark, algorithm, seed). The
  decoding of directory names, YAML and JSON text is taken as done: a configuration
  directory of the first format is given by the identifier and bracket its name encodes
  and the fields of its \<^verbatim>\<open>result.yaml\<close>; a line of \<^verbatim>\<open>configs.json\<close> by its identifier; a
  line of \<^verbatim>\<open>results.json\<close> by its identifier, budget, time stamps and result fields. A
  file or directory that does not exist is \<open>None\<close>.
\<close>

record config_dir =
  dir_id :: int
  dir_bracket :: "int option"
  yaml_loss :: real
  yaml_cost :: real
  yaml_val_score :: real
  yaml_test_score :: real
  yaml_fidelity :: real
  yaml_start_time :: real
  yaml_end_time :: real
  yaml_max_fidelity_loss :: real
  yaml_max_fidelity_cost :: real
  yaml_process_id :: "real option"

record results_line =
  line_id :: "int list"
  line_budget :: real
  line_started :: real
  line_finished :: real
  line_loss :: real
  line_cost :: real
  line_val_score :: real
  line_test_score :: real
  line_max_fidelity_loss :: real
  line_max_fidelity_cost :: real

record neps_root =
  results_dir :: "config_dir list option"

record hpbandster_root =
  configs_json :: "int list list option"
  results_json :: "results_line list option"

record seed_dir =
  neps_root_directory :: "neps_root option"
  hpbandster_root_directory :: "hpbandster_root option"

text \<open>\<^verbatim>\<open>Result.from_dir\<close>, after the decoding.\<close>

definition from_dir :: "config_dir \<Rightarrow> Result" where
  "from_dir d =
     Result (of_int (dir_id d)) (map_option of_int (dir_bracket d)) (yaml_loss d) (yaml_cost d)
       (yaml_val_score d) (yaml_test_score d) (yaml_fidelity d) (yaml_start_time d)
       (yaml_end_time d) (yaml_max_fidelity_loss d) (yaml_max_fidelity_cost d)
       None None None None (yaml_process_id d)"

text \<open>\<^verbatim>\<open>result.mutate(start_time_since_global_start=..., end_time_since_global_start=...)\<close>.\<close>

definition mutate_since_global_start :: "Result \<Rightarrow> real \<Rightarrow> real \<Rightarrow> Result" where
  "mutate_since_global_start r s e =
     Result (config_id r) (bracket r) (loss r) (cost r) (val_score r) (test_score r)
       (fidelity r) (start_time r) (end_time r) (max_fidelity_loss r) (max_fidelity_cost r)
       (cumulated_fidelity r) (Some s) (Some e) (continued_from r) (process_id r)"

definition load_neps :: "neps_root \<Rightarrow> error + Trace" where
  "load_neps neps =
     (case results_dir neps of
        None \<Rightarrow> Inl (AssertionError Results_dir_missing)
      | Some config_dirs \<Rightarrow>
          (let loaded = map from_dir config_dirs in
           if length loaded = 0 then Inl ValueError
           else (let global_start = Min (set (map start_time loaded));
                     since = map (\<lambda>result. mutate_since_global_start result
                                    (start_time result - global_start)
                                    (end_time result - global_start)) loaded
                 in Inr \<lparr>results = sort_key end_time since\<rparr>)))"

text \<open>The position of a key in a list of keys: \<^verbatim>\<open>enumerate\<close> turned into a dict.\<close>

fun index_of :: "'a list \<Rightarrow> 'a \<Rightarrow> nat option" where
  "index_of [] y = None"
| "index_of (x # xs) y = (if x = y then Some 0 else map_option Suc (index_of xs y))"

text \<open>\<^verbatim>\<open>int(budget)\<close> truncates towards zero.\<close>

definition py_int :: "real \<Rightarrow> int" where
  "py_int x = (if 0 \<le> x then \<lfloor>x\<rfloor> else \<lceil>x\<rceil>)"

text \<open>
  \<^verbatim>\<open>load_hpbandster\<close>. The identifiers of \<^verbatim>\<open>configs.json\<close> are numbered in the order of
  their first line; a result line whose identifier has no configuration raises
  \<^verbatim>\<open>KeyError\<close>; the brackets number the distinct fidelities in ascending order.
\<close>

definition load_hpbandster :: "hpbandster_root \<Rightarrow> error + Trace" where
  "load_hpbandster hpbandster =
     (case configs_json hpbandster of
        None \<Rightarrow> Inl FileNotFoundError
      | Some config_lines \<Rightarrow>
          (let loaded_configs = map fst (dict_of (map (\<lambda>i. (i, ())) config_lines)) in
           case results_json hpbandster of
             None \<Rightarrow> Inl FileNotFoundError
           | Some result_lines \<Rightarrow>
               (case map_err (\<lambda>l. case index_of loaded_configs (line_id l) of
                                     None \<Rightarrow> Inl KeyError
                                   | Some new_id \<Rightarrow> Inr (new_id, l)) result_lines of
                  Inl e \<Rightarrow> Inl e
                | Inr hpbandster_results \<Rightarrow>
                    (let unique_fidelities =
                           sort (remdups (map (\<lambda>(new_id, l). py_int (line_budget l))
                                            hpbandster_results));
                         parsed_results =
                           map (\<lambda>(new_id, l).
                                  Result (of_nat new_id)
                                    (map_option of_nat (index_of unique_fidelities
                                                          (py_int (line_budget l))))
                                    (line_loss l) (line_cost l) (line_val_score l)
                                    (line_test_score l) (of_int (py_int (line_budget l)))
                                    (line_started l) (line_finished l)
                                    (line_max_fidelity_loss l) (line_max_fidelity_cost l)
                                    None None None None None)
                             hpbandster_results
                     in Inr \<lparr>results = sort_key end_time parsed_results\<rparr>))))"

definition load :: "seed_dir \<Rightarrow> error + Trace" where
  "load path =
     (case neps_root_directory path of
        Some neps \<Rightarrow> load_neps neps
      | None \<Rightarrow>
          (case hpbandster_root_directory path of
             Some hpbandster \<Rightarrow> load_hpbandster hpbandster
           | None \<Rightarrow> Inl ValueError))"

subsection \<open>Example inputs\<close>

text \<open>
  A record with the given identifier, bracket, loss, fidelity, end time and worker; its cost
  equals its fidelity.
\<close>

definition example_result ::
  "real \<Rightarrow> real option \<Rightarrow> real \<Rightarrow> real \<Rightarrow> real \<Rightarrow> real option \<Rightarrow> Result" where
  "example_result i b l f t p =
     Result i b l f (1 - l) (1 - l) f (t - 1) t 0 0 None None None None p"

text \<open>
  Scenario A of the specification: configuration 0 at brackets 0, 1, 2 with fidelities
  1, 3, 5 and losses 0.9, 0.5, 0.2.
\<close>

definition scenario_A :: Trace where
  "scenario_A = \<lparr>results =
     [example_result 0 (Some 0) 0.9 1 10 None,
      example_result 0 (Some 1) 0.5 3 20 None,
      example_result 0 (Some 2) 0.2 5 30 None]\<rparr>"

text \<open>
  Two configurations whose records are given neither by configuration nor by bracket:
  configuration 0 as in scenario A, listed at brackets 2, 0, 1, and configuration 1 with a
  record without bracket (fidelity 4) and one at bracket 1 (fidelity 6).
\<close>

definition two_configurations :: Trace where
  "two_configurations = \<lparr>results =
     [example_result 0 (Some 2) 0.2 5 30 None,
      example_result 1 (Some 1) 0.6 6 25 None,
      example_result 0 (Some 0) 0.9 1 10 None,
      example_result 1 None 0.7 4 15 None,
      example_result 0 (Some 1) 0.5 3 20 None]\<rparr>"

text \<open>
  Scenario B of the specification: one worker, raw fidelities 1, 1, 3, 1, 9 in end-time
  order.
\<close>

definition scenario_B :: Trace where
  "scenario_B = \<lparr>results =
     [example_result 0 None 0.9 1 1 None,
      example_result 1 None 0.8 1 2 None,
      example_result 2 None 0.7 3 3 None,
      example_result 3 None 0.6 1 4 None,
      example_result 4 None 0.5 9 5 None]\<rparr>"

text \<open>
  A trace of five records of one worker, given out of end-time order; in end-time order
  the losses are 0.5, 0.7, 0.4, 0.4, 0.3.
\<close>

definition scenario_I :: Trace where
  "scenario_I = \<lparr>results =
     [example_result 2 None 0.4 1 3 None,
      example_result 0 None 0.5 1 1 None,
      example_result 4 None 0.3 1 5 None,
      example_result 1 None 0.7 1 2 None,
      example_result 3 None 0.4 1 4 None]\<rparr>"

text \<open>
  Two workers: worker 0 evaluates fidelities 1 and 2 (losses 0.9, 0.5), worker 1 fidelities
  3 and 1 (losses 0.4, 0.8); both reach the cumulated fidelity 3.
\<close>

definition scenario_M :: Trace where
  "scenario_M = \<lparr>results =
     [example_result 0 None 0.9 1 1 (Some 0),
      example_result 1 None 0.4 3 2 (Some 1),
      example_result 2 None 0.5 2 3 (Some 0),
      example_result 3 None 0.8 1 4 (Some 1)]\<rparr>"

text \<open>
  A seed directory holding only \<^verbatim>\<open>hpbandster_root_directory\<close>, with both files present
  and empty, and one holding only \<^verbatim>\<open>neps_root_directory\<close> with an empty results directory.
\<close>

definition empty_hpbandster_dir :: seed_dir where
  "empty_hpbandster_dir =
     \<lparr>neps_root_directory = None,
      hpbandster_root_directory = Some \<lparr>configs_json = Some [], results_json = Some []\<rparr>\<rparr>"

definition empty_neps_dir :: seed_dir where
  "empty_neps_dir =
     \<lparr>neps_root_directory = Some \<lparr>results_dir = Some []\<rparr>,
      hpbandster_root_directory = None\<rparr>"


section \<open>Properties\<close>

subsection \<open>Grouping and dicts\<close>

lemma concat_groupby: "concat (map snd (groupby f xs)) = xs"
  by (induction f xs rule: groupby.induct) auto

lemma groupby_nonempty: "g \<in> set (groupby f xs) \<Longrightarrow> snd g \<noteq> []"
  by (induction f xs rule: groupby.induct) auto

lemma dropWhile_gt:
  fixes f :: "'a \<Rightarrow> 'k::linorder"
  assumes "sorted (map f (x # xs))" "y \<in> set (dropWhile (\<lambda>y. f y = f x) xs)"
  shows "f x < f y"
  using assms
proof (induction xs)
  case Nil then show ?case by simp
next
  case (Cons a xs)
  show ?case
  proof (cases "f a = f x")
    case True
    then show ?thesis using Cons by auto
  next
    case False
    then have "y \<in> set (a # xs)" using Cons.prems(2) by simp
    moreover have "f x < f a" using False Cons.prems(1) by auto
    moreover have "\<forall>z\<in>set (a # xs). f a \<le> f z" using Cons.prems(1) by auto
    ultimately show ?thesis by force
  qed
qed

lemma sorted_dropWhile:
  fixes f :: "'a \<Rightarrow> 'k::linorder"
  shows "sorted (map f xs) \<Longrightarrow> sorted (map f (dropWhile P xs))"
  by (induction xs) auto

lemma groupby_keys_distinct:
  fixes f :: "'a \<Rightarrow> 'k::linorder"
  assumes "sorted (map f xs)"
  shows "distinct (map fst (groupby f xs)) \<and> (\<forall>k\<in>set (map fst (groupby f xs)). k \<in> f ` set xs)"
  using assms
proof (induction f xs rule: groupby.induct)
  case (1 f) then show ?case by simp
next
  case (2 f x xs)
  let ?d = "dropWhile (\<lambda>y. f y = f x) xs"
  have sd: "sorted (map f ?d)" using 2(2) by (simp add: sorted_dropWhile)
  have ih: "distinct (map fst (groupby f ?d))" "\<forall>k\<in>set (map fst (groupby f ?d)). k \<in> f ` set ?d"
    using 2(1)[OF sd] by auto
  have "f x \<notin> set (map fst (groupby f ?d))"
  proof
    assume "f x \<in> set (map fst (groupby f ?d))"
    then obtain y where "y \<in> set ?d" "f y = f x" using ih(2) by auto
    then show False using dropWhile_gt[OF 2(2)] by fastforce
  qed
  moreover have "\<forall>k\<in>set (map fst (groupby f ?d)). k \<in> f ` set (x # xs)"
    using ih(2) by (auto dest: set_dropWhileD)
  ultimately show ?case using ih(1) by simp
qed

lemma filter_takeWhile_same: "filter P (takeWhile P xs) = takeWhile P xs"
  by (induction xs) auto

lemma filter_split_at:
  "filter Q xs = filter Q (takeWhile P xs) @ filter Q (dropWhile P xs)"
  by (induction xs) auto

lemma groupby_group_filter:
  fixes f :: "'a \<Rightarrow> 'k::linorder"
  assumes "sorted (map f xs)" "(k, g) \<in> set (groupby f xs)"
  shows "g = filter (\<lambda>y. f y = k) xs"
  using assms
proof (induction f xs arbitrary: k g rule: groupby.induct)
  case (1 f) then show ?case by simp
next
  case (2 f x xs)
  let ?P = "\<lambda>y. f y = f x"
  let ?d = "dropWhile ?P xs"
  have sd: "sorted (map f ?d)" using 2(2) by (simp add: sorted_dropWhile)
  have gt: "\<forall>y\<in>set ?d. f x < f y" using dropWhile_gt[OF 2(2)] by blast
  from 2(3) have "(k, g) = (f x, x # takeWhile ?P xs) \<or> (k, g) \<in> set (groupby f ?d)"
    by (simp only: groupby.simps set_simps insert_iff)
  then show ?case
  proof
    assume eq: "(k, g) = (f x, x # takeWhile ?P xs)"
    have "filter ?P ?d = []" using gt by (auto simp: filter_empty_conv)
    then have "filter ?P xs = takeWhile ?P xs"
      using filter_split_at[of ?P xs ?P] by (simp only: filter_takeWhile_same append_Nil2)
    then show ?thesis using eq by simp
  next
    assume mem: "(k, g) \<in> set (groupby f ?d)"
    have g: "g = filter (\<lambda>y. f y = k) ?d" by (rule 2(1)[OF sd mem])
    have "k \<in> set (map fst (groupby f ?d))" using mem by force
    then have "k \<in> f ` set ?d" using groupby_keys_distinct[OF sd] by blast
    then have k: "f x < k" using gt by auto
    then have "filter (\<lambda>y. f y = k) (takeWhile ?P xs) = []"
      by (auto simp: filter_empty_conv dest: set_takeWhileD)
    then have e1: "filter (\<lambda>y. f y = k) xs = filter (\<lambda>y. f y = k) ?d"
      using filter_split_at[of "\<lambda>y. f y = k" xs ?P] by (simp only: append_Nil)
    have "f x \<noteq> k" using k by simp
    then have e2: "filter (\<lambda>y. f y = k) (x # xs) = filter (\<lambda>y. f y = k) xs" by simp
    show ?thesis unfolding g e2 e1 ..
  qed
qed

lemma dict_set_fresh: "k \<notin> fst ` set d \<Longrightarrow> dict_set k v d = d @ [(k, v)]"
  by (induction d) auto

lemma fold_dict_set_distinct:
  "distinct (map fst (acc @ kvs)) \<Longrightarrow> fold (\<lambda>(k, v) d. dict_set k v d) kvs acc = acc @ kvs"
proof (induction kvs arbitrary: acc)
  case Nil then show ?case by simp
next
  case (Cons p kvs)
  obtain k v where p: "p = (k, v)" by (cases p)
  have "k \<notin> fst ` set acc" using Cons.prems p by auto
  then have "dict_set k v acc = acc @ [(k, v)]" by (rule dict_set_fresh)
  moreover have "distinct (map fst ((acc @ [(k, v)]) @ kvs))" using Cons.prems p by simp
  ultimately show ?case using Cons.IH[of "acc @ [(k, v)]"] p by simp
qed

lemma dict_of_distinct: "distinct (map fst kvs) \<Longrightarrow> dict_of kvs = kvs"
  using fold_dict_set_distinct[of "[]" kvs] by (simp add: dict_of_def)

lemma config_groups_eq:
  "config_groups rs = map (\<lambda>(k, g). sort_key bracket_key g) (groupby config_id (sort_key config_id rs))"
proof -
  let ?gs = "groupby config_id (sort_key config_id rs)"
  let ?kvs = "map (\<lambda>(config_id, results). (config_id, sort_key bracket_key results)) ?gs"
  have "map fst ?kvs = map fst ?gs" by (simp add: case_prod_unfold)
  moreover have "distinct (map fst ?gs)" using groupby_keys_distinct[of config_id "sort_key config_id rs"] by simp
  ultimately have "dict_of ?kvs = ?kvs" using dict_of_distinct by metis
  then show ?thesis by (simp add: config_groups_def dict_values_def case_prod_unfold comp_def)
qed

lemma sort_key_Nil_iff: "sort_key f xs = [] \<longleftrightarrow> xs = []"
  using length_sort[of f xs] by (metis length_0_conv)

lemma config_groups_nonempty: "g \<in> set (config_groups rs) \<Longrightarrow> g \<noteq> []"
proof -
  assume "g \<in> set (config_groups rs)"
  then obtain p where p: "p \<in> set (groupby config_id (sort_key config_id rs))"
    "g = sort_key bracket_key (snd p)"
    unfolding config_groups_eq by (auto simp: case_prod_unfold)
  from groupby_nonempty[OF p(1)] show ?thesis using p(2) by (simp add: sort_key_Nil_iff)
qed

lemma length_concat_config_groups: "length (concat (config_groups rs)) = length rs"
proof -
  let ?gs = "groupby config_id (sort_key config_id rs)"
  have "length (concat (config_groups rs)) = sum_list (map (\<lambda>p. length (snd p)) ?gs)"
    unfolding config_groups_eq by (simp add: length_concat comp_def case_prod_unfold)
  also have "\<dots> = length (concat (map snd ?gs))" by (simp add: length_concat comp_def)
  also have "\<dots> = length rs" by (simp add: concat_groupby)
  finally show ?thesis .
qed

lemma set_concat_config_groups: "set (concat (config_groups rs)) = set rs"
proof -
  let ?gs = "groupby config_id (sort_key config_id rs)"
  have "set (concat (config_groups rs)) = set (concat (map snd ?gs))"
    unfolding config_groups_eq by (auto simp: case_prod_unfold)
  then show ?thesis by (simp add: concat_groupby)
qed

lemma continue_pairs_Inr:
  "continue_pairs ps acc = Inr res \<Longrightarrow>
     \<exists>cs. res = acc @ cs \<and> list_all2 (\<lambda>(lower, higher) c. continue_from higher lower = Inr c) ps cs"
proof (induction ps acc rule: continue_pairs.induct)
  case (1 continuations) then show ?case by simp
next
  case (2 lower higher ps continuations)
  from 2(2) obtain c where c: "continue_from higher lower = Inr c"
    and rest: "continue_pairs ps (continuations @ [c]) = Inr res"
    by (auto split: sum.splits)
  from 2(1)[OF c rest] obtain cs where "res = (continuations @ [c]) @ cs"
    "list_all2 (\<lambda>(lower, higher) c. continue_from higher lower = Inr c) ps cs" by blast
  then show ?case using c by (intro exI[of _ "c # cs"]) simp
qed

lemma continue_pairs_Inl:
  "continue_pairs ps acc = Inl e \<Longrightarrow>
     e = AssertionError Already_continued \<and> (\<exists>p\<in>set ps. continued_from (snd p) \<noteq> None)"
proof (induction ps acc rule: continue_pairs.induct)
  case (1 continuations) then show ?case by simp
next
  case (2 lower higher ps continuations)
  show ?case
  proof (cases "continue_from higher lower")
    case (Inl e')
    then show ?thesis using 2(2) by (auto simp: continue_from_def split: if_splits)
  next
    case (Inr c)
    then show ?thesis using 2 by auto
  qed
qed

lemma stitch_groups_Inr:
  "stitch_groups gs acc = Inr res \<Longrightarrow> \<forall>g\<in>set gs. g \<noteq> [] \<Longrightarrow>
     \<exists>outs. res = acc @ concat outs \<and> list_all2 stitched_as gs outs"
proof (induction gs acc arbitrary: res rule: stitch_groups.induct)
  case (1 continuations) then show ?case by simp
next
  case (2 g gs continuations)
  then obtain first rest where g: "g = first # rest" by (cases g) auto
  show ?case
  proof (cases "length g = 1")
    case True
    then have rest: "rest = []" using g by simp
    have "stitch_groups gs (continuations @ [first]) = Inr res" using 2(3) g True by simp
    from 2(1)[OF g True this] 2(4) obtain outs where
      o: "res = (continuations @ [first]) @ concat outs" "list_all2 stitched_as gs outs" by auto
    have "stitched_as g [first]" using g rest by (simp add: stitched_as_def pairwise_py_def)
    then show ?thesis using o by (intro exI[of _ "[first] # outs"]) simp
  next
    case False
    from 2(3) g False obtain c' where
      cp: "continue_pairs (pairwise_py g) (continuations @ [first]) = Inr c'"
      and sg: "stitch_groups gs c' = Inr res"
      by (auto split: sum.splits)
    from continue_pairs_Inr[OF cp] obtain cs where
      cs: "c' = (continuations @ [first]) @ cs"
      "list_all2 (\<lambda>(lower, higher) c. continue_from higher lower = Inr c) (pairwise_py g) cs" by blast
    from 2(2)[OF g False cp sg] 2(4) obtain outs where
      o: "res = c' @ concat outs" "list_all2 stitched_as gs outs" by auto
    have "stitched_as g (first # cs)" using g cs(2) by (simp add: stitched_as_def)
    then show ?thesis using o cs(1) by (intro exI[of _ "(first # cs) # outs"]) simp
  qed
qed

lemma stitch_groups_Inl:
  "stitch_groups gs acc = Inl e \<Longrightarrow> \<forall>g\<in>set gs. g \<noteq> [] \<Longrightarrow>
     e = AssertionError Already_continued \<and> (\<exists>g\<in>set gs. \<exists>r\<in>set (tl g). continued_from r \<noteq> None)"
proof (induction gs acc rule: stitch_groups.induct)
  case (1 continuations) then show ?case by simp
next
  case (2 g gs continuations)
  then obtain first rest where g: "g = first # rest" by (cases g) auto
  show ?case
  proof (cases "length g = 1")
    case True
    then have "stitch_groups gs (continuations @ [first]) = Inl e" using 2(3) g by simp
    from 2(1)[OF g True this] 2(4) show ?thesis by auto
  next
    case False
    show ?thesis
    proof (cases "continue_pairs (pairwise_py g) (continuations @ [first])")
      case (Inl e')
      then have "e' = e" using 2(3) g False by simp
      with continue_pairs_Inl[OF Inl] obtain p where
        p: "e = AssertionError Already_continued" "p \<in> set (pairwise_py g)" "continued_from (snd p) \<noteq> None"
        by auto
      then have "snd p \<in> set (tl g)" unfolding pairwise_py_def by (metis prod.collapse set_zip_rightD)
      then show ?thesis using p by auto
    next
      case (Inr c')
      then have "stitch_groups gs c' = Inl e" using 2(3) g False by simp
      from 2(2)[OF g False Inr this] 2(4) show ?thesis by auto
    qed
  qed
qed

lemma stitched_as_length: "g \<noteq> [] \<Longrightarrow> stitched_as g out \<Longrightarrow> length out = length g"
  by (cases g) (auto simp: stitched_as_def pairwise_py_def dest!: list_all2_lengthD)

lemma list_all2_stitched_length:
  "list_all2 stitched_as gs outs \<Longrightarrow> \<forall>g\<in>set gs. g \<noteq> [] \<Longrightarrow>
     length (concat outs) = length (concat gs)"
  by (induction gs outs rule: list_all2_induct) (auto simp: stitched_as_length)

subsection \<open>Continuation stitching keeps the number of records\<close>

lemma scenario_A_stitched:
  "(case with_continuations scenario_A of Inl e \<Rightarrow> False
    | Inr t' \<Rightarrow> map fidelity (results t') = [1, 2, 2] \<and> map cost (results t') = [1, 2, 2]
        \<and> map continued_from (results t') =
            [None, Some (results scenario_A ! 0), Some (results scenario_A ! 1)])"
  by code_simp

text \<open>
  Claim C1. Continuation stitching either stops at the assertion of \<^verbatim>\<open>continue_from\<close>,
  which needs a record of the trace that already carries a continuation reference, or it
  returns a trace with exactly as many records as its input, sorted by end time ascending.
\<close>

theorem with_continuations_preserves_count:
  "case with_continuations t of
     Inr t' \<Rightarrow> length (results t') = length (results t) \<and> sorted (map end_time (results t'))
   | Inl e \<Rightarrow> e = AssertionError Already_continued \<and>
              (\<exists>r\<in>set (results t). continued_from r \<noteq> None)"
proof (cases "stitch_groups (config_groups (results t)) []")
  case (Inl e)
  have ne: "\<forall>g\<in>set (config_groups (results t)). g \<noteq> []" using config_groups_nonempty by blast
  from stitch_groups_Inl[OF Inl ne] obtain g r where
    e: "e = AssertionError Already_continued" and g: "g \<in> set (config_groups (results t))"
    and r: "r \<in> set (tl g)" "continued_from r \<noteq> None" by blast
  have "r \<in> set g" using r(1) by (metis list.sel(2) list.set_sel(2))
  then have "r \<in> set (concat (config_groups (results t)))" using g by auto
  then have "r \<in> set (results t)" by (simp only: set_concat_config_groups)
  then show ?thesis using Inl e r(2) by (auto simp: with_continuations_def)
next
  case (Inr cs)
  have ne: "\<forall>g\<in>set (config_groups (results t)). g \<noteq> []" using config_groups_nonempty by blast
  from stitch_groups_Inr[OF Inr ne] obtain outs where
    o: "cs = concat outs" "list_all2 stitched_as (config_groups (results t)) outs" by auto
  have "length cs = length (results t)"
    using list_all2_stitched_length[OF o(2) ne] o(1) by (simp only: length_concat_config_groups)
  then show ?thesis using Inr by (simp add: with_continuations_def)
qed

theorem with_continuations_preserves_count_witness:
  "case with_continuations scenario_A of
     Inr t' \<Rightarrow> length (results t') = 3 \<and> sorted (map end_time (results t'))
   | Inl e \<Rightarrow> False"
  using with_continuations_preserves_count[of scenario_A] scenario_A_stitched
  by (auto split: sum.splits simp: scenario_A_def)

subsection \<open>Continuation stitching computes the deltas of each group\<close>

lemma continue_from_is_continuation:
  "continue_from higher lower = Inr r \<Longrightarrow> is_continuation lower higher r"
  by (auto simp: continue_from_def is_continuation_def split: if_splits)

lemma groupby_keys: "map fst (groupby f xs) = remdups_adj (map f xs)"
proof (induction f xs rule: groupby.induct)
  case (1 f) then show ?case by simp
next
  case (2 f x xs)
  have "remdups_adj (map f (x # xs)) = f x # remdups_adj (dropWhile (\<lambda>y. y = f x) (map f xs))"
    using remdups_adj_append_dropWhile[of "[]" "f x" "map f xs"] by simp
  also have "dropWhile (\<lambda>y. y = f x) (map f xs) = map f (dropWhile (\<lambda>y. f y = f x) xs)"
    by (simp add: dropWhile_map comp_def)
  finally show ?case using 2 by simp
qed

lemma groupby_keys_sorted_list:
  fixes f :: "'a \<Rightarrow> 'k::linorder"
  assumes "sorted (map f xs)"
  shows "map fst (groupby f xs) = sorted_list_of_set (f ` set xs)"
proof -
  have "sorted (map fst (groupby f xs))" using assms by (simp add: groupby_keys sorted_remdups_adj)
  moreover have "distinct (map fst (groupby f xs))" using groupby_keys_distinct[OF assms] by simp
  moreover have "set (map fst (groupby f xs)) = f ` set xs" by (simp add: groupby_keys)
  ultimately show ?thesis
    by (intro sorted_distinct_set_unique) simp_all
qed

lemma bracket_key_index: "bracket_key r = bracket_index r"
  by (cases "bracket r") (simp_all add: bracket_key_def bracket_index_def)

lemma config_groups_spec:
  "config_groups rs = map (spec_group rs) (sorted_list_of_set (config_id ` set rs))"
proof -
  let ?srt = "sort_key config_id rs"
  let ?G = "groupby config_id ?srt"
  have srt: "sorted (map config_id ?srt)" by simp
  have "map (\<lambda>(k, g). sort_key bracket_key g) ?G = map (\<lambda>p. spec_group rs (fst p)) ?G"
  proof (rule map_cong[OF refl])
    fix p assume "p \<in> set ?G"
    then have "(fst p, snd p) \<in> set ?G" by simp
    from groupby_group_filter[OF srt this]
    have "snd p = filter (\<lambda>y. config_id y = fst p) rs" by (simp only: sort_key_stable)
    moreover have "sort_key bracket_key = sort_key bracket_index"
      by (rule arg_cong[of _ _ sort_key]) (rule ext, rule bracket_key_index)
    ultimately show "(case p of (k, g) \<Rightarrow> sort_key bracket_key g) = spec_group rs (fst p)"
      by (simp add: spec_group_def case_prod_unfold)
  qed
  also have "\<dots> = map (spec_group rs) (map fst ?G)" by simp
  also have "map fst ?G = sorted_list_of_set (config_id ` set rs)"
    using groupby_keys_sorted_list[OF srt] by simp
  finally show ?thesis by (simp only: config_groups_eq)
qed

lemma stitched_as_spec:
  assumes "stitched_as g out" "g \<noteq> []"
  shows "spec_stitched g out"
proof -
  from assms(1) obtain cs where out: "out = hd g # cs"
    and cs: "list_all2 (\<lambda>(lower, higher) c. continue_from higher lower = Inr c) (pairwise_py g) cs"
    by (auto simp: stitched_as_def)
  have len: "length out = length g" using stitched_as_length[OF assms(2,1)] .
  have "out ! 0 = g ! 0" using out assms(2) by (simp add: hd_conv_nth)
  moreover have "is_continuation (g ! j) (g ! Suc j) (out ! Suc j)" if j: "Suc j < length g" for j
  proof -
    have jl: "j < length (pairwise_py g)" using j by (simp add: pairwise_py_def)
    have "pairwise_py g ! j = (g ! j, g ! Suc j)" using j by (simp add: pairwise_py_def nth_tl)
    with list_all2_nthD[OF cs jl] have "continue_from (g ! Suc j) (g ! j) = Inr (cs ! j)" by simp
    then show ?thesis using out by (simp add: continue_from_is_continuation)
  qed
  ultimately show ?thesis using len by (simp add: spec_stitched_def)
qed

lemma with_continuations_stitches_aux:
  assumes "with_continuations t = Inr t'"
  shows "\<exists>outs. results t' = sort_key end_time (concat outs) \<and>
           list_all2 (\<lambda>i out. spec_stitched (spec_group (results t) i) out)
             (sorted_list_of_set (config_id ` set (results t))) outs"
proof -
  let ?rs = "results t"
  obtain cs where cs: "stitch_groups (config_groups ?rs) [] = Inr cs"
    and t': "results t' = sort_key end_time cs"
  proof (cases "stitch_groups (config_groups ?rs) []")
    case (Inl e)
    then show ?thesis using assms by (simp add: with_continuations_def)
  next
    case (Inr cs)
    then have "results t' = sort_key end_time cs" using assms
      by (auto simp: with_continuations_def split: if_splits)
    then show ?thesis using Inr that by blast
  qed
  have ne: "\<forall>g\<in>set (config_groups ?rs). g \<noteq> []" using config_groups_nonempty by blast
  from stitch_groups_Inr[OF cs ne] obtain outs where
    o: "cs = concat outs" "list_all2 stitched_as (config_groups ?rs) outs" by auto
  have "list_all2 spec_stitched (config_groups ?rs) outs"
  proof (rule list.rel_mono_strong[OF o(2)])
    fix g out assume "g \<in> set (config_groups ?rs)" "stitched_as g out"
    then show "spec_stitched g out" using ne stitched_as_spec by blast
  qed
  then have "list_all2 (\<lambda>i out. spec_stitched (spec_group ?rs i) out)
             (sorted_list_of_set (config_id ` set ?rs)) outs"
    by (simp add: config_groups_spec list_all2_map1)
  then show ?thesis using t' o(1) by blast
qed
lemma with_continuations_total:
  assumes "\<forall>r\<in>set (results t). continued_from r = None"
  shows "\<exists>t'. with_continuations t = Inr t'"
proof (cases "stitch_groups (config_groups (results t)) []")
  case (Inl e)
  have ne: "\<forall>g\<in>set (config_groups (results t)). g \<noteq> []" using config_groups_nonempty by blast
  from stitch_groups_Inl[OF Inl ne] obtain g r where g: "g \<in> set (config_groups (results t))"
    and r: "r \<in> set (tl g)" "continued_from r \<noteq> None" by blast
  have "r \<in> set g" using r(1) by (metis list.sel(2) list.set_sel(2))
  then have "r \<in> set (concat (config_groups (results t)))" using g by auto
  then have "r \<in> set (results t)" by (simp only: set_concat_config_groups)
  then have "continued_from r = None" using assms by simp
  then show ?thesis using r(2) by simp
next
  case (Inr cs)
  have ne: "\<forall>g\<in>set (config_groups (results t)). g \<noteq> []" using config_groups_nonempty by blast
  from stitch_groups_Inr[OF Inr ne] obtain outs where
    o: "cs = concat outs" "list_all2 stitched_as (config_groups (results t)) outs" by auto
  have "length cs = length (results t)"
    using list_all2_stitched_length[OF o(2) ne] o(1) by (simp only: length_concat_config_groups)
  then show ?thesis using Inr by (simp add: with_continuations_def)
qed

lemma two_configurations_stitched:
  "(case with_continuations two_configurations of Inl e \<Rightarrow> False
    | Inr t' \<Rightarrow> map config_id (results t') = [0, 1, 0, 1, 0] \<and>
        map bracket (results t') = [Some 0, None, Some 1, Some 1, Some 2] \<and>
        map fidelity (results t') = [1, 4, 2, 2, 2] \<and> map cost (results t') = [1, 4, 2, 2, 2] \<and>
        map continued_from (results t') =
          [None, None, Some (results two_configurations ! 2),
           Some (results two_configurations ! 3), Some (results two_configurations ! 4)])"
  by code_simp

lemma two_configurations_groups:
  "sorted_list_of_set (config_id ` set (results two_configurations)) = [0, 1] \<and>
   map bracket (spec_group (results two_configurations) 0) = [Some 0, Some 1, Some 2] \<and>
   map fidelity (spec_group (results two_configurations) 0) = [1, 3, 5] \<and>
   map bracket (spec_group (results two_configurations) 1) = [None, Some 1] \<and>
   map fidelity (spec_group (results two_configurations) 1) = [4, 6]"
proof -
  have "config_id ` set (results two_configurations) = {0, 1}"
    by (auto simp: two_configurations_def example_result_def)
  then have "sorted_list_of_set (config_id ` set (results two_configurations)) = [0, 1]"
    by simp
  then show ?thesis
    by (simp add: two_configurations_def example_result_def spec_group_def bracket_index_def)
qed

text \<open>
  Claim C2. Whenever stitching returns, its records are, re-sorted by end time, the
  concatenation over the configuration identifiers of the trace of one output list per
  identifier: the records of that identifier sorted by bracket index ascending (absent
  bracket as 0), the first, of lowest bracket, kept as it is, every later one replaced by
  the record with fidelity and cost reduced by those of its predecessor, \<^verbatim>\<open>continued_from\<close>
  set to the predecessor and all other fields unchanged. Stitching returns on every trace
  whose records carry no continuation reference yet. Scenario A (fidelities 1, 3, 5 at
  brackets 0, 1, 2) yields 1, 2, 2.
\<close>

theorem with_continuations_stitches:
  "(\<forall>t'. with_continuations t = Inr t' \<longrightarrow>
      (\<exists>outs. results t' = sort_key end_time (concat outs) \<and>
         list_all2 (\<lambda>i out. spec_stitched (spec_group (results t) i) out)
           (sorted_list_of_set (config_id ` set (results t))) outs)) \<and>
   ((\<forall>r\<in>set (results t). continued_from r = None) \<longrightarrow>
      (\<exists>t'. with_continuations t = Inr t'))"
  using with_continuations_stitches_aux with_continuations_total by blast

text \<open>
  The theorem at scenario A, and at two configurations listed out of bracket order: the
  groups are those of identifiers 0 and 1 in bracket order (fidelities 1, 3, 5 and 4, 6),
  and the stitched fidelities are 1, 2, 2 and 4, 2, in end-time order 1, 4, 2, 2, 2.
\<close>

theorem with_continuations_stitches_witness:
  "list_all (\<lambda>r. continued_from r = None) (results scenario_A) \<and>
   (\<exists>t'. with_continuations scenario_A = Inr t' \<and>
      map fidelity (results t') = [1, 2, 2] \<and>
      (\<exists>outs. results t' = sort_key end_time (concat outs) \<and>
         list_all2 (\<lambda>i out. spec_stitched (spec_group (results scenario_A) i) out)
           (sorted_list_of_set (config_id ` set (results scenario_A))) outs)) \<and>
   list_all (\<lambda>r. continued_from r = None) (results two_configurations) \<and>
   map fidelity (spec_group (results two_configurations) 0) = [1, 3, 5] \<and>
   map fidelity (spec_group (results two_configurations) 1) = [4, 6] \<and>
   (\<exists>t'. with_continuations two_configurations = Inr t' \<and>
      map config_id (results t') = [0, 1, 0, 1, 0] \<and>
      map bracket (results t') = [Some 0, None, Some 1, Some 1, Some 2] \<and>
      map fidelity (results t') = [1, 4, 2, 2, 2] \<and>
      (\<exists>out0 out1. results t' = sort_key end_time (out0 @ out1) \<and>
         spec_stitched (spec_group (results two_configurations) 0) out0 \<and>
         spec_stitched (spec_group (results two_configurations) 1) out1))"
proof -
  have h: "\<forall>r\<in>set (results scenario_A). continued_from r = None"
    by (simp add: scenario_A_def example_result_def)
  from with_continuations_stitches[of scenario_A] h
  obtain t' where t': "with_continuations scenario_A = Inr t'" by blast
  from with_continuations_stitches[of scenario_A] t'
  have a: "\<exists>outs. results t' = sort_key end_time (concat outs) \<and>
         list_all2 (\<lambda>i out. spec_stitched (spec_group (results scenario_A) i) out)
           (sorted_list_of_set (config_id ` set (results scenario_A))) outs" by blast
  have b: "map fidelity (results t') = [1, 2, 2]" using scenario_A_stitched t' by simp
  have c1: "\<exists>t'. with_continuations scenario_A = Inr t' \<and>
      map fidelity (results t') = [1, 2, 2] \<and>
      (\<exists>outs. results t' = sort_key end_time (concat outs) \<and>
         list_all2 (\<lambda>i out. spec_stitched (spec_group (results scenario_A) i) out)
           (sorted_list_of_set (config_id ` set (results scenario_A))) outs)"
    by (rule exI[of _ t']) (simp only: t' a b simp_thms)
  have l1: "list_all (\<lambda>r. continued_from r = None) (results scenario_A)"
    using h by (simp only: list_all_iff)
  have h2: "\<forall>r\<in>set (results two_configurations). continued_from r = None"
    by (simp add: two_configurations_def example_result_def)
  have l2: "list_all (\<lambda>r. continued_from r = None) (results two_configurations)"
    using h2 by (simp only: list_all_iff)
  from with_continuations_stitches[of two_configurations] h2
  obtain u where u: "with_continuations two_configurations = Inr u" by blast
  from with_continuations_stitches[of two_configurations] u
  obtain outs where outs: "results u = sort_key end_time (concat outs)"
    "list_all2 (\<lambda>i out. spec_stitched (spec_group (results two_configurations) i) out)
       (sorted_list_of_set (config_id ` set (results two_configurations))) outs" by blast
  have ids: "sorted_list_of_set (config_id ` set (results two_configurations)) = [0, 1]"
    using two_configurations_groups by (rule conjunct1)
  from outs(2) obtain out0 out1 where o: "outs = [out0, out1]"
    "spec_stitched (spec_group (results two_configurations) 0) out0"
    "spec_stitched (spec_group (results two_configurations) 1) out1"
    unfolding ids by (auto simp: list_all2_Cons1)
  have r: "results u = sort_key end_time (out0 @ out1)" using outs(1) o(1) by simp
  have v: "map config_id (results u) = [0, 1, 0, 1, 0]"
    "map bracket (results u) = [Some 0, None, Some 1, Some 1, Some 2]"
    "map fidelity (results u) = [1, 4, 2, 2, 2]"
    using two_configurations_stitched u by simp_all
  have c2: "\<exists>t'. with_continuations two_configurations = Inr t' \<and>
      map config_id (results t') = [0, 1, 0, 1, 0] \<and>
      map bracket (results t') = [Some 0, None, Some 1, Some 1, Some 2] \<and>
      map fidelity (results t') = [1, 4, 2, 2, 2] \<and>
      (\<exists>out0 out1. results t' = sort_key end_time (out0 @ out1) \<and>
         spec_stitched (spec_group (results two_configurations) 0) out0 \<and>
         spec_stitched (spec_group (results two_configurations) 1) out1)"
  proof (rule exI[of _ u], intro conjI u v)
    show "\<exists>out0 out1. results u = sort_key end_time (out0 @ out1) \<and>
         spec_stitched (spec_group (results two_configurations) 0) out0 \<and>
         spec_stitched (spec_group (results two_configurations) 1) out1"
      by (rule exI[of _ out0], rule exI[of _ out1]) (intro conjI r o(2,3))
  qed
  have g0: "map fidelity (spec_group (results two_configurations) 0) = [1, 3, 5]"
    and g1: "map fidelity (spec_group (results two_configurations) 1) = [4, 6]"
    using two_configurations_groups by simp_all
  show ?thesis by (intro conjI l1 c1 l2 g0 g1 c2)
qed

subsection \<open>Single-worker cumulative fidelity\<close>

lemma length_accumulate_from: "length (accumulate_from a xs) = length xs"
  by (induction xs arbitrary: a) auto

lemma accumulate_from_nth:
  "i < length xs \<Longrightarrow> accumulate_from a xs ! i = a + sum_list (take (Suc i) xs)"
proof (induction xs arbitrary: a i)
  case Nil then show ?case by simp
next
  case (Cons x xs)
  show ?case
  proof (cases i)
    case 0 then show ?thesis by simp
  next
    case (Suc j)
    then have "j < length xs" using Cons.prems by simp
    from Cons.IH[OF this, of "a + x"] show ?thesis using Suc by simp
  qed
qed

lemma length_accumulate: "length (accumulate xs) = length xs"
  by (cases xs) (simp_all add: accumulate_def length_accumulate_from)

lemma accumulate_nth: "i < length xs \<Longrightarrow> accumulate xs ! i = sum_list (take (Suc i) xs)"
proof (cases xs)
  case Nil then show "i < length xs \<Longrightarrow> ?thesis" by simp
next
  case (Cons x rest)
  assume i: "i < length xs"
  show ?thesis
  proof (cases i)
    case 0 then show ?thesis using Cons by (simp add: accumulate_def)
  next
    case (Suc j)
    then have "j < length rest" using i Cons by simp
    from accumulate_from_nth[OF this, of x] show ?thesis using Suc Cons by (simp add: accumulate_def)
  qed
qed

lemma all_equal_map_iff:
  "all_equal (map f xs) \<longleftrightarrow> (\<forall>r\<in>set xs. \<forall>r'\<in>set xs. f r = f r')"
proof (cases xs)
  case Nil then show ?thesis by (simp add: all_equal_def)
next
  case (Cons a rest)
  have "(\<forall>y\<in>set rest. f y = f a) \<longleftrightarrow> (\<forall>r\<in>set (a # rest). \<forall>r'\<in>set (a # rest). f r = f r')"
    by (metis list.set_intros(1) set_ConsD list.set_intros(2))
  then show ?thesis using Cons by (simp add: all_equal_def list_all_iff)
qed

lemma cumulated_results_eq:
  "map (\<lambda>(r, f). mutate_cumulated_fidelity r (Some f)) (zip srt (accumulate (map fidelity srt)))
   = map (\<lambda>i. mutate_cumulated_fidelity (srt ! i)
             (Some (sum_list (take (Suc i) (map fidelity srt))))) [0..<length srt]"
proof (rule nth_equalityI)
  show "length (map (\<lambda>(r, f). mutate_cumulated_fidelity r (Some f)) (zip srt (accumulate (map fidelity srt))))
    = length (map (\<lambda>i. mutate_cumulated_fidelity (srt ! i)
             (Some (sum_list (take (Suc i) (map fidelity srt))))) [0..<length srt])"
    by (simp add: length_accumulate)
next
  fix i assume "i < length (map (\<lambda>(r, f). mutate_cumulated_fidelity r (Some f)) (zip srt (accumulate (map fidelity srt))))"
  then have i: "i < length srt" by (simp add: length_accumulate)
  then have "accumulate (map fidelity srt) ! i = sum_list (take (Suc i) (map fidelity srt))"
    by (intro accumulate_nth) simp
  then show "map (\<lambda>(r, f). mutate_cumulated_fidelity r (Some f)) (zip srt (accumulate (map fidelity srt))) ! i
    = map (\<lambda>i. mutate_cumulated_fidelity (srt ! i)
             (Some (sum_list (take (Suc i) (map fidelity srt))))) [0..<length srt] ! i"
    using i by (simp add: length_accumulate del: take_Suc_Cons)
qed

text \<open>
  Claim C3. With \<^verbatim>\<open>n_workers\<close> unspecified or 1, on a trace whose records all carry the
  same worker identifier (or none), cumulative fidelity returns the records in end-time
  order, the record at position \<open>i\<close> unchanged but for \<^verbatim>\<open>cumulated_fidelity\<close>, which is the
  sum of the fidelities at positions \<open>0..i\<close> of that order. Scenario B yields
  1, 2, 5, 6, 15.
\<close>

theorem single_worker_cumulative_fidelity:
  assumes "n_workers = None \<or> n_workers = Some 1"
    and "\<forall>r\<in>set (results t). \<forall>r'\<in>set (results t). process_id r = process_id r'"
  shows "with_cumulative_fidelity t n_workers yaxis =
           Inr (t\<lparr>results :=
             map (\<lambda>i. mutate_cumulated_fidelity (sort_key end_time (results t) ! i)
                    (Some (sum_list (take (Suc i)
                       (map fidelity (sort_key end_time (results t)))))))
               [0..<length (results t)]\<rparr>)"
proof -
  have "all_equal (map process_id (results t))" using assms(2) by (simp only: all_equal_map_iff)
  then have "with_cumulative_fidelity_single t = Inr (t\<lparr>results :=
      map (\<lambda>(r, f). mutate_cumulated_fidelity r (Some f))
        (zip (sort_key end_time (results t)) (accumulate (map fidelity (sort_key end_time (results t)))))\<rparr>)"
    by (simp add: with_cumulative_fidelity_single_def Let_def)
  moreover have "with_cumulative_fidelity t n_workers yaxis = with_cumulative_fidelity_single t"
    using assms(1) by (auto simp: with_cumulative_fidelity_def)
  ultimately show ?thesis
    by (simp only: cumulated_results_eq[of "sort_key end_time (results t)"] length_sort)
qed

theorem single_worker_cumulative_fidelity_witness:
  "list_all (\<lambda>r. list_all (\<lambda>r'. process_id r = process_id r') (results scenario_B))
     (results scenario_B) \<and>
   (\<exists>t'. with_cumulative_fidelity scenario_B None Loss = Inr t' \<and>
      map cumulated_fidelity (results t') = [Some 1, Some 2, Some 5, Some 6, Some 15])"
proof -
  have h: "\<forall>r\<in>set (results scenario_B). \<forall>r'\<in>set (results scenario_B). process_id r = process_id r'"
    by (simp add: scenario_B_def example_result_def)
  have s: "sort_key end_time (results scenario_B) = results scenario_B"
    by (simp add: scenario_B_def example_result_def)
  have u: "[0..<5] = [0, 1, 2, 3, 4]" by (simp add: upt_rec)
  from single_worker_cumulative_fidelity[OF _ h, of None Loss]
  have "with_cumulative_fidelity scenario_B None Loss =
           Inr (scenario_B\<lparr>results :=
             map (\<lambda>i. mutate_cumulated_fidelity (sort_key end_time (results scenario_B) ! i)
                    (Some (sum_list (take (Suc i)
                       (map fidelity (sort_key end_time (results scenario_B)))))))
               [0..<length (results scenario_B)]\<rparr>)" by simp
  then have "with_cumulative_fidelity scenario_B None Loss = Inr (scenario_B\<lparr>results :=
             map (\<lambda>i. mutate_cumulated_fidelity (results scenario_B ! i)
                    (Some (sum_list (take (Suc i) (map fidelity (results scenario_B))))))
               [0..<length (results scenario_B)]\<rparr>)" by (simp only: s)
  then have "\<exists>t'. with_cumulative_fidelity scenario_B None Loss = Inr t' \<and>
      map cumulated_fidelity (results t') = [Some 1, Some 2, Some 5, Some 6, Some 15]"
    by (simp add: scenario_B_def example_result_def mutate_cumulated_fidelity_def u)
  moreover have "list_all (\<lambda>r. list_all (\<lambda>r'. process_id r = process_id r') (results scenario_B))
     (results scenario_B)" using h by (simp only: list_all_iff)
  ultimately show ?thesis by (intro conjI)
qed

subsection \<open>Incumbent extraction\<close>

lemma incumbent_loop_eq: "incumbent_loop rest inc incs = incs @ improvements inc rest"
  by (induction rest arbitrary: inc incs) auto

lemma subseq_improvements: "subseq (improvements inc rs) rs"
  by (induction rs arbitrary: inc) auto

lemma improvements_below: "r \<in> set (improvements inc rs) \<Longrightarrow> loss r < loss inc"
proof (induction rs arbitrary: inc)
  case Nil then show ?case by simp
next
  case (Cons a rs)
  show ?case
  proof (cases "loss a < loss inc")
    case True
    then have "r = a \<or> r \<in> set (improvements a rs)" using Cons.prems by simp
    then show ?thesis using True Cons.IH[of a] by auto
  next
    case False
    then show ?thesis using Cons by simp
  qed
qed

lemma improvements_decreasing: "sorted_wrt (\<lambda>a b. loss b < loss a) (improvements inc rs)"
  by (induction rs arbitrary: inc) (auto dest: improvements_below)

lemma improvements_strict_improvers:
  assumes "inc \<in> set seen" "\<forall>q\<in>set seen. loss inc \<le> loss q"
  shows "improvements inc rs = strict_improvers seen rs"
  using assms
proof (induction rs arbitrary: inc seen)
  case Nil then show ?case by simp
next
  case (Cons r rs)
  have iff: "(\<forall>q\<in>set seen. loss r < loss q) \<longleftrightarrow> loss r < loss inc"
    using Cons.prems by (meson le_less_trans less_le_trans order.strict_trans2)
  show ?case
  proof (cases "loss r < loss inc")
    case True
    have "improvements r rs = strict_improvers (seen @ [r]) rs"
    proof (rule Cons.IH)
      show "r \<in> set (seen @ [r])" by simp
      show "\<forall>q\<in>set (seen @ [r]). loss r \<le> loss q"
        using True Cons.prems(2) by (auto intro: less_imp_le order_trans)
    qed
    then show ?thesis using True iff by simp
  next
    case False
    have "improvements inc rs = strict_improvers (seen @ [r]) rs"
    proof (rule Cons.IH)
      show "inc \<in> set (seen @ [r])" using Cons.prems(1) by simp
      show "\<forall>q\<in>set (seen @ [r]). loss inc \<le> loss q" using False Cons.prems(2) by auto
    qed
    then show ?thesis using False iff by simp
  qed
qed

lemma first_strict_improvers: "strict_improvers [] (r # rs) = r # improvements r rs"
  using improvements_strict_improvers[of r "[r]" rs] by simp

lemma sorted_by_present:
  "\<forall>x\<in>set xs. key x \<noteq> None \<Longrightarrow> sorted_by key xs = Inr (sort_key (\<lambda>x. key_value (key x)) xs)"
  by (simp add: sorted_by_def list_ex_iff)

lemma incumbent_trace_Inr:
  assumes "results t \<noteq> []" "\<forall>r\<in>set (results t). getattr r xaxis \<noteq> None"
  shows "incumbent_trace t xaxis Loss =
     Inr (t\<lparr>results := strict_improvers [] (sort_key (\<lambda>r. key_value (getattr r xaxis)) (results t))\<rparr>)"
proof -
  let ?s = "sort_key (\<lambda>r. key_value (getattr r xaxis)) (results t)"
  have "?s \<noteq> []" using assms(1) by (metis length_sort length_0_conv)
  then obtain r0 rest where s: "?s = r0 # rest" by (cases ?s) auto
  have "sorted_by (\<lambda>r. getattr r xaxis) (results t) = Inr ?s"
    using sorted_by_present[of "results t" "\<lambda>r. getattr r xaxis"] assms(2) by simp
  then have "incumbent_trace t xaxis Loss = Inr (t\<lparr>results := incumbent_loop rest r0 [r0]\<rparr>)"
    by (simp add: incumbent_trace_def s)
  then show ?thesis by (simp only: s first_strict_improvers incumbent_loop_eq append_Cons append_Nil)
qed

lemma incumbent_trace_empty: "results t = [] \<Longrightarrow> incumbent_trace t xaxis Loss = Inl IndexError"
  by (simp add: incumbent_trace_def sorted_by_def)

lemma subseq_sorted_map:
  fixes f :: "'a \<Rightarrow> 'k::linorder"
  shows "subseq xs ys \<Longrightarrow> sorted (map f ys) \<Longrightarrow> sorted (map f xs)"
proof (induction rule: list_emb.induct)
  case (list_emb_Nil ys) then show ?case by simp
next
  case (list_emb_Cons xs ys y) then show ?case by simp
next
  case (list_emb_Cons2 x y xs ys)
  have "set xs \<subseteq> set ys" using list_emb_Cons2.hyps(2) by (auto dest: list_emb_set)
  then show ?case using list_emb_Cons2 by auto
qed

lemma scenario_I_incumbents:
  "(case incumbent_trace scenario_I End_time Loss of Inl e \<Rightarrow> False
    | Inr t' \<Rightarrow> map loss (results t') = [0.5, 0.4, 0.3] \<and> map config_id (results t') = [0, 2, 4])"
  by code_simp

lemma sorted_by_sortable:
  "length xs = 1 \<or> (\<forall>x\<in>set xs. key x \<noteq> None) \<Longrightarrow>
     sorted_by key xs = Inr (sort_key (\<lambda>x. key_value (key x)) xs)"
  by (auto simp: sorted_by_def list_ex_iff)

lemma incumbent_trace_sortable:
  assumes "results t \<noteq> []"
    and "length (results t) = 1 \<or> (\<forall>r\<in>set (results t). getattr r xaxis \<noteq> None)"
  shows "incumbent_trace t xaxis Loss =
     Inr (t\<lparr>results := strict_improvers [] (sort_key (\<lambda>r. key_value (getattr r xaxis)) (results t))\<rparr>)"
proof -
  let ?s = "sort_key (\<lambda>r. key_value (getattr r xaxis)) (results t)"
  have "?s \<noteq> []" using assms(1) by (metis length_sort length_0_conv)
  then obtain r0 rest where s: "?s = r0 # rest" by (cases ?s) auto
  have "sorted_by (\<lambda>r. getattr r xaxis) (results t) = Inr ?s"
    using sorted_by_sortable[of "results t" "\<lambda>r. getattr r xaxis"] assms(2) by simp
  then have "incumbent_trace t xaxis Loss = Inr (t\<lparr>results := incumbent_loop rest r0 [r0]\<rparr>)"
    by (simp add: incumbent_trace_def s)
  then show ?thesis by (simp only: s first_strict_improvers incumbent_loop_eq append_Cons append_Nil)
qed

text \<open>
  Claim C4, as amended. On a non-empty trace that Python can sort by the chosen x-axis (a
  single record, or a value for the axis on every record), incumbent extraction over the
  loss returns a subsequence of the records sorted ascending by that axis; the result is
  sorted by the axis, starts with the first record of the sorted input (a record of smallest
  axis value), its losses strictly decrease from each record to the next, and it holds
  exactly the records that strictly improve on every record before them.
\<close>

theorem incumbent_trace_strictly_improving:
  assumes "results t \<noteq> []"
    and "length (results t) = 1 \<or> (\<forall>r\<in>set (results t). getattr r xaxis \<noteq> None)"
  shows "\<exists>t'. incumbent_trace t xaxis Loss = Inr t' \<and>
     subseq (results t') (sort_key (\<lambda>r. key_value (getattr r xaxis)) (results t)) \<and>
     sorted (map (\<lambda>r. key_value (getattr r xaxis)) (results t')) \<and>
     results t' \<noteq> [] \<and>
     hd (results t') = hd (sort_key (\<lambda>r. key_value (getattr r xaxis)) (results t)) \<and>
     (\<forall>r\<in>set (results t).
        key_value (getattr (hd (results t')) xaxis) \<le> key_value (getattr r xaxis)) \<and>
     sorted_wrt (\<lambda>a b. loss b < loss a) (results t') \<and>
     results t' = strict_improvers [] (sort_key (\<lambda>r. key_value (getattr r xaxis)) (results t))"
proof -
  let ?k = "\<lambda>r. key_value (getattr r xaxis)"
  define s where "s = sort_key ?k (results t)"
  define out where "out = strict_improvers [] s"
  have "s \<noteq> []" using assms(1) unfolding s_def by (metis length_sort length_0_conv)
  then obtain r0 rest where s: "s = r0 # rest" by (cases s) auto
  have out: "out = r0 # improvements r0 rest"
    unfolding out_def by (simp only: s first_strict_improvers)
  have srt: "sorted (map ?k s)" unfolding s_def by simp
  have sub: "subseq out s" using subseq_improvements[of r0 rest] by (simp add: out s)
  have a1: "incumbent_trace t xaxis Loss = Inr (t\<lparr>results := out\<rparr>)"
    unfolding out_def s_def by (rule incumbent_trace_sortable[OF assms])
  have a3: "sorted (map ?k out)" by (rule subseq_sorted_map[OF sub srt])
  have a4: "out \<noteq> []" by (simp add: out)
  have a5: "hd out = hd s" by (simp add: out s)
  have "\<forall>r\<in>set s. ?k r0 \<le> ?k r" using srt by (auto simp: s)
  then have "\<forall>r\<in>set (results t). ?k r0 \<le> ?k r" by (simp add: s_def)
  then have a6: "\<forall>r\<in>set (results t). ?k (hd out) \<le> ?k r" by (simp add: out)
  have a7: "sorted_wrt (\<lambda>a b. loss b < loss a) out"
    using improvements_decreasing[of r0 rest] improvements_below[of _ r0 rest] by (simp add: out)
  have "incumbent_trace t xaxis Loss = Inr (t\<lparr>results := out\<rparr>) \<and>
     subseq (results (t\<lparr>results := out\<rparr>)) s \<and>
     sorted (map ?k (results (t\<lparr>results := out\<rparr>))) \<and>
     results (t\<lparr>results := out\<rparr>) \<noteq> [] \<and>
     hd (results (t\<lparr>results := out\<rparr>)) = hd s \<and>
     (\<forall>r\<in>set (results t). ?k (hd (results (t\<lparr>results := out\<rparr>))) \<le> ?k r) \<and>
     sorted_wrt (\<lambda>a b. loss b < loss a) (results (t\<lparr>results := out\<rparr>)) \<and>
     results (t\<lparr>results := out\<rparr>) = strict_improvers [] s"
    using a1 sub a3 a4 a5 a6 a7 out_def by simp
  then show ?thesis unfolding s_def by (rule exI[of _ "t\<lparr>results := out\<rparr>"])
qed

theorem incumbent_trace_strictly_improving_witness:
  "results scenario_I \<noteq> [] \<and> list_all (\<lambda>r. getattr r End_time \<noteq> None) (results scenario_I) \<and>
   (\<exists>t'. incumbent_trace scenario_I End_time Loss = Inr t' \<and>
      map loss (results t') = [0.5, 0.4, 0.3] \<and>
      map config_id (results t') = [0, 2, 4] \<and>
      sorted_wrt (\<lambda>a b. loss b < loss a) (results t') \<and>
      sorted (map (\<lambda>r. key_value (getattr r End_time)) (results t'))) \<and>
   length (results \<lparr>results = [example_result 7 None 0.5 1 1 None]\<rparr>) = 1 \<and>
   (\<exists>t'. incumbent_trace \<lparr>results = [example_result 7 None 0.5 1 1 None]\<rparr> Cumulated_fidelity Loss
            = Inr t' \<and>
      results t' = [example_result 7 None 0.5 1 1 None])"
proof -
  have h1: "results scenario_I \<noteq> []" by (simp add: scenario_I_def)
  have h2: "\<forall>r\<in>set (results scenario_I). getattr r End_time \<noteq> None" by simp
  from incumbent_trace_strictly_improving[OF h1 disjI2[OF h2]] obtain t' where
    t': "incumbent_trace scenario_I End_time Loss = Inr t'"
    and d: "sorted_wrt (\<lambda>a b. loss b < loss a) (results t')"
    and s: "sorted (map (\<lambda>r. key_value (getattr r End_time)) (results t'))" by blast
  have l: "map loss (results t') = [0.5, 0.4, 0.3]" "map config_id (results t') = [0, 2, 4]"
    using scenario_I_incumbents t' by simp_all
  have c1: "\<exists>t'. incumbent_trace scenario_I End_time Loss = Inr t' \<and>
      map loss (results t') = [0.5, 0.4, 0.3] \<and>
      map config_id (results t') = [0, 2, 4] \<and>
      sorted_wrt (\<lambda>a b. loss b < loss a) (results t') \<and>
      sorted (map (\<lambda>r. key_value (getattr r End_time)) (results t'))"
    by (rule exI[of _ t']) (intro conjI t' l d s)
  have l2: "list_all (\<lambda>r. getattr r End_time \<noteq> None) (results scenario_I)"
    using h2 by (simp only: list_all_iff)
  let ?one = "\<lparr>results = [example_result 7 None 0.5 1 1 None]\<rparr>"
  have n1: "results ?one \<noteq> []" by simp
  have n2: "length (results ?one) = 1" by simp
  from incumbent_trace_strictly_improving[OF n1 disjI1[OF n2], of Cumulated_fidelity]
  obtain u where u: "incumbent_trace ?one Cumulated_fidelity Loss = Inr u"
    and e: "results u = strict_improvers [] (sort_key (\<lambda>r. key_value (getattr r Cumulated_fidelity)) (results ?one))"
    by blast
  have "results u = [example_result 7 None 0.5 1 1 None]" using e by simp
  then have c2: "\<exists>t'. incumbent_trace ?one Cumulated_fidelity Loss = Inr t' \<and>
      results t' = [example_result 7 None 0.5 1 1 None]" using u by blast
  show ?thesis by (intro conjI h1 l2 c1 n2 c2)
qed

text \<open>
  The claim as stated fails on a non-empty trace: the records of scenario I carry no
  cumulated fidelity, and on that axis the sort of \<^verbatim>\<open>incumbent_trace\<close> raises.
\<close>

theorem incumbent_trace_strictly_improving_counterexample:
  "results scenario_I \<noteq> [] \<and>
   incumbent_trace scenario_I Cumulated_fidelity Loss = Inl TypeError"
proof -
  have "list_ex (\<lambda>r. getattr r Cumulated_fidelity = None) (results scenario_I)"
    by (simp add: scenario_I_def example_result_def)
  then have "incumbent_trace scenario_I Cumulated_fidelity Loss = Inl TypeError"
    by (simp add: incumbent_trace_def sorted_by_def scenario_I_def)
  then show ?thesis by (simp add: scenario_I_def)
qed

lemma in_range_outside:
  assumes "\<forall>r\<in>set (results t). \<exists>v. getattr r xaxis = Some v \<and> (v < low \<or> high < v)"
  shows "in_range t (low, high) xaxis = Inr (t\<lparr>results := []\<rparr>)"
proof -
  have "\<not> list_ex (\<lambda>r. getattr r xaxis = None) (results t)"
    using assms by (auto simp: list_ex_iff)
  moreover have "filter (\<lambda>result. low \<le> key_value (getattr result xaxis) \<and>
      key_value (getattr result xaxis) \<le> high) (results t) = []"
    using assms by (auto simp: filter_empty_conv key_value_def)
  ultimately show ?thesis by (simp add: in_range_def sorted_by_def)
qed

lemma incumbent_trace_nonempty:
  assumes "results t \<noteq> []"
    and "length (results t) = 1 \<or> (\<forall>r\<in>set (results t). getattr r xaxis \<noteq> None)"
  shows "\<exists>t'. incumbent_trace t xaxis Loss = Inr t' \<and> results t' \<noteq> []"
proof -
  define s where "s = sort_key (\<lambda>r. key_value (getattr r xaxis)) (results t)"
  have "s \<noteq> []" using assms(1) unfolding s_def by (metis length_sort length_0_conv)
  then obtain r0 rest where s: "s = r0 # rest" by (cases s) auto
  have "\<not> (2 \<le> length (results t) \<and> list_ex (\<lambda>r. getattr r xaxis = None) (results t))"
    using assms(2) by (auto simp: list_ex_iff)
  then have "sorted_by (\<lambda>r. getattr r xaxis) (results t) = Inr s"
    by (simp add: sorted_by_def s_def)
  then have "incumbent_trace t xaxis Loss = Inr (t\<lparr>results := incumbent_loop rest r0 [r0]\<rparr>)"
    by (simp add: incumbent_trace_def s)
  moreover have "results (t\<lparr>results := incumbent_loop rest r0 [r0]\<rparr>) \<noteq> []"
    by (simp add: incumbent_loop_eq)
  ultimately show ?thesis by blast
qed

text \<open>
  Python cannot order \<^verbatim>\<open>None\<close>: with two or more records of which one has no value on
  the x-axis, the sort of \<^verbatim>\<open>incumbent_trace\<close> raises.
\<close>

lemma incumbent_trace_TypeError:
  assumes "2 \<le> length (results t)" and "\<exists>r\<in>set (results t). getattr r xaxis = None"
  shows "incumbent_trace t xaxis Loss = Inl TypeError"
proof -
  have "list_ex (\<lambda>r. getattr r xaxis = None) (results t)" using assms(2) by (simp add: list_ex_iff)
  then show ?thesis using assms(1) by (simp add: incumbent_trace_def sorted_by_def)
qed

text \<open>
  Claim C10, as amended. Over the loss, \<^verbatim>\<open>incumbent_trace\<close> returns a non-empty trace
  on every trace with at least one record that Python can sort by the x-axis (a single
  record, or a value for the axis on every record); with two or more records of which one
  has no value on the axis it fails with \<^verbatim>\<open>TypeError\<close>. On the empty trace it fails with
  \<^verbatim>\<open>IndexError\<close> instead of returning an empty trace, and the empty trace arises from
  \<^verbatim>\<open>in_range\<close> with bounds that exclude every record.
\<close>

theorem incumbent_trace_needs_records:
  "((results t \<noteq> [] \<and>
      (length (results t) = 1 \<or> (\<forall>r\<in>set (results t). getattr r xaxis \<noteq> None))) \<longrightarrow>
      (\<exists>t'. incumbent_trace t xaxis Loss = Inr t' \<and> results t' \<noteq> [])) \<and>
   ((2 \<le> length (results t) \<and> (\<exists>r\<in>set (results t). getattr r xaxis = None)) \<longrightarrow>
      incumbent_trace t xaxis Loss = Inl TypeError) \<and>
   (results t = [] \<longrightarrow> incumbent_trace t xaxis Loss = Inl IndexError) \<and>
   ((\<forall>r\<in>set (results t). \<exists>v. getattr r xaxis = Some v \<and> (v < low \<or> high < v)) \<longrightarrow>
      (\<exists>t'. in_range t (low, high) xaxis = Inr t' \<and> results t' = [] \<and>
            incumbent_trace t' xaxis Loss = Inl IndexError))"
proof (intro conjI impI)
  assume "results t \<noteq> [] \<and>
      (length (results t) = 1 \<or> (\<forall>r\<in>set (results t). getattr r xaxis \<noteq> None))"
  then show "\<exists>t'. incumbent_trace t xaxis Loss = Inr t' \<and> results t' \<noteq> []"
    using incumbent_trace_nonempty[of t xaxis] by blast
next
  assume "2 \<le> length (results t) \<and> (\<exists>r\<in>set (results t). getattr r xaxis = None)"
  then show "incumbent_trace t xaxis Loss = Inl TypeError"
    using incumbent_trace_TypeError[of t xaxis] by blast
next
  assume "results t = []"
  then show "incumbent_trace t xaxis Loss = Inl IndexError" by (rule incumbent_trace_empty)
next
  assume "\<forall>r\<in>set (results t). \<exists>v. getattr r xaxis = Some v \<and> (v < low \<or> high < v)"
  then have "in_range t (low, high) xaxis = Inr (t\<lparr>results := []\<rparr>)" by (rule in_range_outside)
  moreover have "incumbent_trace (t\<lparr>results := []\<rparr>) xaxis Loss = Inl IndexError"
    by (rule incumbent_trace_empty) simp
  ultimately show "\<exists>t'. in_range t (low, high) xaxis = Inr t' \<and> results t' = [] \<and>
            incumbent_trace t' xaxis Loss = Inl IndexError" by simp
qed

theorem incumbent_trace_needs_records_witness:
  "results scenario_A \<noteq> [] \<and> list_all (\<lambda>r. getattr r End_time \<noteq> None) (results scenario_A) \<and>
   (\<exists>t'. incumbent_trace scenario_A End_time Loss = Inr t' \<and> results t' \<noteq> []) \<and>
   2 \<le> length (results scenario_B) \<and>
   list_ex (\<lambda>r. getattr r Cumulated_fidelity = None) (results scenario_B) \<and>
   incumbent_trace scenario_B Cumulated_fidelity Loss = Inl TypeError \<and>
   list_all (\<lambda>r. \<exists>v. getattr r End_time = Some v \<and> (v < 100 \<or> 200 < v)) (results scenario_A) \<and>
   (\<exists>t'. in_range scenario_A (100, 200) End_time = Inr t' \<and> results t' = [] \<and>
         incumbent_trace t' End_time Loss = Inl IndexError) \<and>
   incumbent_trace \<lparr>results = []\<rparr> End_time Loss = Inl IndexError"
proof -
  have h1a: "results scenario_A \<noteq> []" by (simp add: scenario_A_def)
  have h1b: "\<forall>r\<in>set (results scenario_A). getattr r End_time \<noteq> None" by simp
  have h2: "\<forall>r\<in>set (results scenario_A). \<exists>v. getattr r End_time = Some v \<and> (v < 100 \<or> 200 < v)"
    by (simp add: scenario_A_def example_result_def)
  have h3: "results \<lparr>results = []\<rparr> = []" by simp
  have h4a: "2 \<le> length (results scenario_B)" by (simp add: scenario_B_def)
  have h4b: "\<exists>r\<in>set (results scenario_B). getattr r Cumulated_fidelity = None"
    by (simp add: scenario_B_def example_result_def)
  have l4: "list_ex (\<lambda>r. getattr r Cumulated_fidelity = None) (results scenario_B)"
    using h4b by (simp only: list_ex_iff)
  note w = incumbent_trace_needs_records[of scenario_A End_time 100 200]
  note n = incumbent_trace_needs_records[of scenario_B Cumulated_fidelity 0 0]
  note e = incumbent_trace_needs_records[of "\<lparr>results = []\<rparr>" End_time 0 0]
  from w h1a h1b have c1: "\<exists>t'. incumbent_trace scenario_A End_time Loss = Inr t' \<and> results t' \<noteq> []"
    by blast
  from w h2 have c2: "\<exists>t'. in_range scenario_A (100, 200) End_time = Inr t' \<and> results t' = [] \<and>
         incumbent_trace t' End_time Loss = Inl IndexError" by blast
  from e h3 have c3: "incumbent_trace \<lparr>results = []\<rparr> End_time Loss = Inl IndexError" by blast
  have l1: "list_all (\<lambda>r. getattr r End_time \<noteq> None) (results scenario_A)"
    using h1b by (simp only: list_all_iff)
  have l2: "list_all (\<lambda>r. \<exists>v. getattr r End_time = Some v \<and> (v < 100 \<or> 200 < v))
     (results scenario_A)" using h2 by (simp only: list_all_iff)
  from n h4a h4b have c4: "incumbent_trace scenario_B Cumulated_fidelity Loss = Inl TypeError"
    by blast
  show ?thesis by (intro conjI h1a l1 c1 h4a l4 c4 l2 c2 c3)
qed

text \<open>
  The claim as stated fails on a trace with records: scenario A before any cumulative
  fidelity has been computed, on the cumulated-fidelity axis.
\<close>

theorem incumbent_trace_needs_records_counterexample:
  "results scenario_A \<noteq> [] \<and>
   incumbent_trace scenario_A Cumulated_fidelity Loss = Inl TypeError"
proof -
  have "list_ex (\<lambda>r. getattr r Cumulated_fidelity = None) (results scenario_A)"
    by (simp add: scenario_A_def example_result_def)
  then have "incumbent_trace scenario_A Cumulated_fidelity Loss = Inl TypeError"
    by (simp add: incumbent_trace_def sorted_by_def scenario_A_def)
  then show ?thesis by (simp add: scenario_A_def)
qed

subsection \<open>Multi-worker cumulative fidelity\<close>

lemma scenario_M_cumulated:
  "(case with_cumulative_fidelity scenario_M (Some 2) Loss of Inl e \<Rightarrow> False
    | Inr t' \<Rightarrow> map cumulated_fidelity (results t') = [Some 1, Some 3, Some 4] \<and>
        map loss (results t') = [0.9, 0.4, 0.8])"
  by code_simp

lemma scenario_M_merged:
  "(case merged_cumulated (results scenario_M) of Inl e \<Rightarrow> False
    | Inr m \<Rightarrow> map cumulated_fidelity m = [Some 1, Some 3, Some 3, Some 4] \<and>
        map loss m = [0.9, 0.5, 0.4, 0.8])"
  by code_simp

lemma groupby_group_key: "(k, g) \<in> set (groupby f xs) \<Longrightarrow> \<forall>x\<in>set g. f x = k"
proof (induction f xs rule: groupby.induct)
  case (1 f) then show ?case by simp
next
  case (2 f x xs)
  from 2(2) have "(k, g) = (f x, x # takeWhile (\<lambda>y. f y = f x) xs) \<or>
      (k, g) \<in> set (groupby f (dropWhile (\<lambda>y. f y = f x) xs))" by simp
  then show ?case
  proof
    assume "(k, g) = (f x, x # takeWhile (\<lambda>y. f y = f x) xs)"
    then show ?thesis by (auto dest: set_takeWhileD)
  next
    assume "(k, g) \<in> set (groupby f (dropWhile (\<lambda>y. f y = f x) xs))"
    then show ?thesis by (rule 2(1))
  qed
qed

lemma set_dict_set: "set (dict_set k v d) \<subseteq> insert (k, v) (set d)"
  by (induction d) auto

lemma set_fold_dict_set:
  "set (fold (\<lambda>(k, v) d. dict_set k v d) kvs acc) \<subseteq> set acc \<union> set kvs"
proof (induction kvs arbitrary: acc)
  case Nil then show ?case by simp
next
  case (Cons p kvs)
  obtain k v where p: "p = (k, v)" by (cases p)
  have "set (fold (\<lambda>(k, v) d. dict_set k v d) kvs (dict_set k v acc)) \<subseteq> set (dict_set k v acc) \<union> set kvs"
    by (rule Cons.IH)
  also have "\<dots> \<subseteq> insert (k, v) (set acc) \<union> set kvs" using set_dict_set[of k v acc] by auto
  finally show ?case using p by auto
qed

lemma set_dict_of: "set (dict_of kvs) \<subseteq> set kvs"
  using set_fold_dict_set[of kvs "[]"] by (simp add: dict_of_def)

lemma map_err_Inr:
  "\<forall>x\<in>set xs. \<exists>y. f x = Inr y \<Longrightarrow> \<exists>ys. map_err f xs = Inr ys \<and> list_all2 (\<lambda>x y. f x = Inr y) xs ys"
proof (induction xs)
  case Nil then show ?case by simp
next
  case (Cons x xs)
  then obtain y where y: "f x = Inr y" by auto
  from Cons obtain ys where ys: "map_err f xs = Inr ys" "list_all2 (\<lambda>x y. f x = Inr y) xs ys" by auto
  show ?case using y ys by (intro exI[of _ "y # ys"]) simp
qed

lemma single_Inr:
  "all_equal (map process_id (results t)) \<Longrightarrow>
     \<exists>t'. with_cumulative_fidelity_single t = Inr t' \<and> (\<forall>r\<in>set (results t'). cumulated_fidelity r \<noteq> None)"
  by (auto simp: with_cumulative_fidelity_single_def Let_def mutate_cumulated_fidelity_def dest!: set_zip_leftD)

lemma single_cumulated_present:
  "with_cumulative_fidelity_single t = Inr t' \<Longrightarrow> \<forall>r\<in>set (results t'). cumulated_fidelity r \<noteq> None"
  by (auto simp: with_cumulative_fidelity_single_def Let_def mutate_cumulated_fidelity_def split: if_splits)

lemma min_by_fold:
  "fold (\<lambda>y m. if key y < key m then y else m) rest x = b \<Longrightarrow>
     b \<in> set (x # rest) \<and> key b \<le> (key x :: real) \<and> (\<forall>y\<in>set rest. key b \<le> key y)"
proof (induction rest arbitrary: x)
  case Nil then show ?case by simp
next
  case (Cons a rest)
  let ?x' = "if key a < key x then a else x"
  have "fold (\<lambda>y m. if key y < key m then y else m) rest ?x' = b" using Cons.prems by simp
  from Cons.IH[OF this] have b: "b \<in> set (?x' # rest)" "key b \<le> key ?x'" "\<forall>y\<in>set rest. key b \<le> key y"
    by auto
  have "key ?x' \<le> key x" "key ?x' \<le> key a" by auto
  then have "key b \<le> key x" "key b \<le> key a" using b(2) by linarith+
  moreover have "b \<in> set (x # a # rest)" using b(1) by (auto split: if_splits)
  ultimately show ?case using b(3) by simp
qed

lemma min_by_Inr:
  assumes "g \<noteq> []"
  shows "\<exists>b. min_by key g = Inr b \<and> b \<in> set g \<and> (\<forall>y\<in>set g. key b \<le> key y)"
proof -
  from assms obtain x rest where g: "g = x # rest" by (cases g) auto
  let ?b = "fold (\<lambda>y m. if key y < key m then y else m) rest x"
  from min_by_fold[of key rest x ?b]
  have "?b \<in> set (x # rest)" "key ?b \<le> key x" "\<forall>y\<in>set rest. key ?b \<le> key y" by auto
  then show ?thesis using g by (intro exI[of _ ?b]) (simp add: min_by_def)
qed

lemma list_all2_right_set:
  "list_all2 P xs ys \<Longrightarrow> y \<in> set ys \<Longrightarrow> \<exists>x\<in>set xs. P x y"
  by (induction rule: list_all2_induct) auto

lemma list_all2_map_eq:
  "list_all2 (\<lambda>x y. f x = g y) xs ys \<Longrightarrow> map f xs = map g ys"
  by (induction rule: list_all2_induct) auto

lemma sorted_map_Some:
  fixes f :: "'a \<Rightarrow> 'k::linorder"
  shows "sorted (map f xs) \<Longrightarrow> sorted (map (\<lambda>x. Some (f x)) xs)"
  by (induction xs) auto

lemma merged_cumulated_Inr:
  "\<exists>m. merged_cumulated rs = Inr m \<and> (\<forall>r\<in>set m. cumulated_fidelity r \<noteq> None)"
proof -
  let ?srt = "sort_key (\<lambda>r. case process_id r of Some p \<Rightarrow> p | None \<Rightarrow> 0) rs"
  let ?rpp = "dict_of (map (\<lambda>(pid, presults). (pid, \<lparr>results = presults\<rparr>)) (groupby process_id ?srt))"
  let ?f = "\<lambda>(pid, trace). case with_cumulative_fidelity_single trace of
                   Inl e \<Rightarrow> Inl e | Inr t \<Rightarrow> Inr (pid, t)"
  have each: "\<exists>y. ?f x = Inr y" if x: "x \<in> set ?rpp" for x
  proof -
    obtain pid trace where xp: "x = (pid, trace)" by (cases x)
    have "x \<in> set (map (\<lambda>(pid, presults). (pid, \<lparr>results = presults\<rparr>)) (groupby process_id ?srt))"
      using x set_dict_of by blast
    then obtain g where g: "(pid, g) \<in> set (groupby process_id ?srt)" "trace = \<lparr>results = g\<rparr>"
      using xp by auto
    from groupby_group_key[OF g(1)] have "all_equal (map process_id (results trace))"
      using g(2) by (simp add: all_equal_map_iff)
    from single_Inr[OF this] show ?thesis using xp by auto
  qed
  then have "\<forall>x\<in>set ?rpp. \<exists>y. ?f x = Inr y" by blast
  from map_err_Inr[OF this] obtain ys where
    ys: "map_err ?f ?rpp = Inr ys" "list_all2 (\<lambda>x y. ?f x = Inr y) ?rpp ys" by blast
  let ?m = "concat (map Trace.results (dict_values (dict_of ys)))"
  have m: "merged_cumulated rs = Inr ?m" using ys(1) by (simp add: merged_cumulated_def Let_def)
  have "cumulated_fidelity r \<noteq> None" if r: "r \<in> set ?m" for r
  proof -
    from r obtain p where p: "p \<in> set (dict_of ys)" "r \<in> set (results (snd p))"
      by (auto simp: dict_values_def)
    then have "p \<in> set ys" using set_dict_of by blast
    from list_all2_right_set[OF ys(2) this] obtain x where "?f x = Inr p" by blast
    then have "with_cumulative_fidelity_single (snd x) = Inr (snd p)"
      by (auto simp: case_prod_unfold split: sum.splits)
    from single_cumulated_present[OF this] p(2) show ?thesis by blast
  qed
  then show ?thesis using m by blast
qed

lemma groupby_keys_set: "set (map fst (groupby f xs)) = f ` set xs"
  by (simp add: groupby_keys)

lemma dedup_min_loss_Inr:
  assumes present: "\<forall>r\<in>set m. cumulated_fidelity r \<noteq> None"
  shows "\<exists>out. dedup_min_loss m = Inr out \<and>
     sorted (map (\<lambda>r. key_value (cumulated_fidelity r)) out) \<and>
     distinct (map cumulated_fidelity out) \<and>
     set (map cumulated_fidelity out) = set (map cumulated_fidelity m) \<and>
     (\<forall>r\<in>set out. r \<in> set m \<and>
        (\<forall>r'\<in>set m. cumulated_fidelity r' = cumulated_fidelity r \<longrightarrow> loss r \<le> loss r'))"
proof -
  let ?kv = "\<lambda>r. key_value (cumulated_fidelity r)"
  define s where "s = sort_key ?kv m"
  define G where "G = groupby cumulated_fidelity s"
  have set_s: "set s = set m" by (simp add: s_def)
  have sb: "sorted_by cumulated_fidelity m = Inr s"
    unfolding s_def using sorted_by_present[of m cumulated_fidelity] present by simp
  have cf_s: "map cumulated_fidelity s = map (\<lambda>r. Some (?kv r)) s"
    using present set_s by (auto simp: key_value_def)
  have "sorted (map ?kv s)" by (simp add: s_def)
  then have srt: "sorted (map cumulated_fidelity s)" by (simp only: cf_s sorted_map_Some)
  have grp_ne: "snd x \<noteq> []" if "x \<in> set G" for x
    using that groupby_nonempty[of x cumulated_fidelity s] by (simp add: G_def)
  have grp_eq: "snd x = filter (\<lambda>y. cumulated_fidelity y = fst x) s" if "x \<in> set G" for x
    using that groupby_group_filter[OF srt, of "fst x" "snd x"] by (simp add: G_def)
  have "\<forall>x\<in>set G. \<exists>b. (\<lambda>(k, results). min_by loss results) x = Inr b"
  proof
    fix x assume x: "x \<in> set G"
    then have "snd x \<noteq> []" by (rule grp_ne)
    from min_by_Inr[OF this, of loss] show "\<exists>b. (\<lambda>(k, results). min_by loss results) x = Inr b"
      by (auto simp: case_prod_unfold)
  qed
  from map_err_Inr[OF this] obtain best where
    best: "map_err (\<lambda>(k, results). min_by loss results) G = Inr best"
    and rel: "list_all2 (\<lambda>x b. (\<lambda>(k, results). min_by loss results) x = Inr b) G best" by blast
  have pick: "b \<in> set (snd x) \<and> (\<forall>y\<in>set (snd x). loss b \<le> loss y)"
    if "(\<lambda>(k, results). min_by loss results) x = Inr b" "x \<in> set G" for x b
  proof -
    have ne: "snd x \<noteq> []" using that(2) by (rule grp_ne)
    from min_by_Inr[OF ne, of loss] that(1) show ?thesis by (auto simp: case_prod_unfold)
  qed
  have best_prop: "\<exists>x\<in>set G. b \<in> set (snd x) \<and> (\<forall>y\<in>set (snd x). loss b \<le> loss y)"
    if "b \<in> set best" for b
  proof -
    from list_all2_right_set[OF rel that] obtain x where
      x: "x \<in> set G" "(\<lambda>(k, results). min_by loss results) x = Inr b" by blast
    from pick[OF x(2) x(1)] x(1) show ?thesis by blast
  qed
  have best_m: "b \<in> set m \<and> (\<forall>r'\<in>set m. cumulated_fidelity r' = cumulated_fidelity b \<longrightarrow> loss b \<le> loss r')"
    if "b \<in> set best" for b
  proof -
    from best_prop[OF that] obtain x where x: "x \<in> set G" "b \<in> set (snd x)"
      "\<forall>y\<in>set (snd x). loss b \<le> loss y" by blast
    have g: "snd x = filter (\<lambda>y. cumulated_fidelity y = fst x) s" using x(1) by (rule grp_eq)
    have bk: "cumulated_fidelity b = fst x" and bs: "b \<in> set s" using x(2) g by auto
    have "loss b \<le> loss r'" if r': "r' \<in> set m" "cumulated_fidelity r' = cumulated_fidelity b" for r'
    proof -
      have "r' \<in> set (filter (\<lambda>y. cumulated_fidelity y = fst x) s)" using r' bk set_s by simp
      then have "r' \<in> set (snd x)" using g by simp
      then show ?thesis using x(3) by blast
    qed
    then show ?thesis using bs set_s by blast
  qed
  have "list_all2 (\<lambda>x b. fst x = cumulated_fidelity b) G best"
  proof (rule list.rel_mono_strong[OF rel])
    fix x b assume x: "x \<in> set G" and "(\<lambda>(k, results). min_by loss results) x = Inr b"
    from pick[OF this(2) x] have "b \<in> set (snd x)" by simp
    moreover have "snd x = filter (\<lambda>y. cumulated_fidelity y = fst x) s" using x by (rule grp_eq)
    ultimately show "fst x = cumulated_fidelity b" by auto
  qed
  then have keys: "map cumulated_fidelity best = map fst G" using list_all2_map_eq[of fst cumulated_fidelity G best] by simp
  have dk: "distinct (map cumulated_fidelity best)"
    using groupby_keys_distinct[OF srt] by (simp add: keys G_def)
  have sk: "set (map cumulated_fidelity best) = set (map cumulated_fidelity m)"
    using groupby_keys_set[of cumulated_fidelity s] set_s by (simp add: keys G_def)
  define out where "out = sort_key ?kv best"
  have set_out: "set out = set best" by (simp add: out_def)
  have "\<forall>b\<in>set best. cumulated_fidelity b \<noteq> None" using best_m present by blast
  then have sb2: "sorted_by cumulated_fidelity best = Inr out"
    unfolding out_def using sorted_by_present[of best cumulated_fidelity] by simp
  have d: "dedup_min_loss m = Inr out"
    by (simp add: dedup_min_loss_def sb best sb2 flip: G_def)
  have p1: "sorted (map ?kv out)" by (simp add: out_def)
  have p2: "distinct (map cumulated_fidelity out)"
    using dk by (simp add: distinct_map out_def)
  have p3: "set (map cumulated_fidelity out) = set (map cumulated_fidelity m)"
    using sk set_out by simp
  have p4: "\<forall>r\<in>set out. r \<in> set m \<and>
        (\<forall>r'\<in>set m. cumulated_fidelity r' = cumulated_fidelity r \<longrightarrow> loss r \<le> loss r')"
    using best_m set_out by blast
  show ?thesis by (rule exI[of _ out]) (intro conjI d p1 p2 p3 p4)
qed

text \<open>
  Claim C7. With a worker count other than 1 (in particular above 1), a metric other than
  the loss makes cumulative fidelity fail: with the assertion on \<^verbatim>\<open>yaxis\<close> when every
  record carries a worker identifier, with the assertion on the worker identifiers
  otherwise. With the loss and worker identifiers on every record it returns a trace
  sorted by cumulated fidelity ascending, in which every cumulated fidelity of the merged
  per-worker records occurs exactly once, carried by a merged record whose loss is least
  among the merged records of that cumulated fidelity.
\<close>

theorem multi_worker_cumulative_fidelity:
  assumes "n_workers = Some n" and "n \<noteq> 1"
  shows "(yaxis \<noteq> Loss \<longrightarrow>
            with_cumulative_fidelity t n_workers yaxis =
              Inl (AssertionError (if list_all (\<lambda>r. process_id r \<noteq> None) (results t)
                                   then Yaxis_not_supported else Process_id_missing))) \<and>
         (yaxis = Loss \<and> (\<forall>r\<in>set (results t). process_id r \<noteq> None) \<longrightarrow>
            (\<exists>merged t'. merged_cumulated (results t) = Inr merged \<and>
               with_cumulative_fidelity t n_workers yaxis = Inr t' \<and>
               sorted (map (\<lambda>r. key_value (cumulated_fidelity r)) (results t')) \<and>
               distinct (map cumulated_fidelity (results t')) \<and>
               set (map cumulated_fidelity (results t')) = set (map cumulated_fidelity merged) \<and>
               (\<forall>r\<in>set (results t'). r \<in> set merged \<and>
                  (\<forall>r'\<in>set merged. cumulated_fidelity r' = cumulated_fidelity r \<longrightarrow>
                     loss r \<le> loss r'))))"
proof -
  obtain m where m: "merged_cumulated (results t) = Inr m"
    and present: "\<forall>r\<in>set m. cumulated_fidelity r \<noteq> None"
    using merged_cumulated_Inr[of "results t"] by blast
  have a: "with_cumulative_fidelity t n_workers yaxis =
              Inl (AssertionError (if list_all (\<lambda>r. process_id r \<noteq> None) (results t)
                                   then Yaxis_not_supported else Process_id_missing))"
    if "yaxis \<noteq> Loss"
    using that assms m by (simp add: with_cumulative_fidelity_def)
  have b: "\<exists>merged t'. merged_cumulated (results t) = Inr merged \<and>
               with_cumulative_fidelity t n_workers yaxis = Inr t' \<and>
               sorted (map (\<lambda>r. key_value (cumulated_fidelity r)) (results t')) \<and>
               distinct (map cumulated_fidelity (results t')) \<and>
               set (map cumulated_fidelity (results t')) = set (map cumulated_fidelity merged) \<and>
               (\<forall>r\<in>set (results t'). r \<in> set merged \<and>
                  (\<forall>r'\<in>set merged. cumulated_fidelity r' = cumulated_fidelity r \<longrightarrow>
                     loss r \<le> loss r'))"
    if y: "yaxis = Loss" and p: "\<forall>r\<in>set (results t). process_id r \<noteq> None"
  proof -
    from dedup_min_loss_Inr[OF present] obtain out where
      d: "dedup_min_loss m = Inr out"
      and p1: "sorted (map (\<lambda>r. key_value (cumulated_fidelity r)) out)"
      and p2: "distinct (map cumulated_fidelity out)"
      and p3: "set (map cumulated_fidelity out) = set (map cumulated_fidelity m)"
      and p4: "\<forall>r\<in>set out. r \<in> set m \<and>
        (\<forall>r'\<in>set m. cumulated_fidelity r' = cumulated_fidelity r \<longrightarrow> loss r \<le> loss r')"
      by blast
    have la: "list_all (\<lambda>r. process_id r \<noteq> None) (results t)" using p by (simp add: list_all_iff)
    have w: "with_cumulative_fidelity t n_workers yaxis = Inr (t\<lparr>results := out\<rparr>)"
      using assms m d y la by (simp add: with_cumulative_fidelity_def)
    have "merged_cumulated (results t) = Inr m \<and>
               with_cumulative_fidelity t n_workers yaxis = Inr (t\<lparr>results := out\<rparr>) \<and>
               sorted (map (\<lambda>r. key_value (cumulated_fidelity r)) (results (t\<lparr>results := out\<rparr>))) \<and>
               distinct (map cumulated_fidelity (results (t\<lparr>results := out\<rparr>))) \<and>
               set (map cumulated_fidelity (results (t\<lparr>results := out\<rparr>))) = set (map cumulated_fidelity m) \<and>
               (\<forall>r\<in>set (results (t\<lparr>results := out\<rparr>)). r \<in> set m \<and>
                  (\<forall>r'\<in>set m. cumulated_fidelity r' = cumulated_fidelity r \<longrightarrow>
                     loss r \<le> loss r'))"
      using m w p1 p2 p3 p4 by simp
    then show ?thesis by (intro exI[of _ m] exI[of _ "t\<lparr>results := out\<rparr>"])
  qed
  show ?thesis using a b by blast
qed

theorem multi_worker_cumulative_fidelity_witness:
  "(2::int) \<noteq> 1 \<and> Cost \<noteq> Loss \<and>
   with_cumulative_fidelity scenario_M (Some 2) Cost = Inl (AssertionError Yaxis_not_supported) \<and>
   list_all (\<lambda>r. process_id r \<noteq> None) (results scenario_M) \<and>
   (\<exists>t'. with_cumulative_fidelity scenario_M (Some 2) Loss = Inr t' \<and>
      map cumulated_fidelity (results t') = [Some 1, Some 3, Some 4] \<and>
      map loss (results t') = [0.9, 0.4, 0.8] \<and>
      distinct (map cumulated_fidelity (results t')) \<and>
      sorted (map (\<lambda>r. key_value (cumulated_fidelity r)) (results t')))"
proof -
  have h0: "(2::int) \<noteq> 1" by simp
  have h1: "Cost \<noteq> Loss" by simp
  have h2: "\<forall>r\<in>set (results scenario_M). process_id r \<noteq> None"
    by (simp add: scenario_M_def example_result_def)
  have la: "list_all (\<lambda>r. process_id r \<noteq> None) (results scenario_M)"
    using h2 by (simp add: list_all_iff)
  from multi_worker_cumulative_fidelity[OF refl h0, of Cost scenario_M] h1 la
  have c1: "with_cumulative_fidelity scenario_M (Some 2) Cost = Inl (AssertionError Yaxis_not_supported)"
    by simp
  from multi_worker_cumulative_fidelity[OF refl h0, of Loss scenario_M] h2
  obtain t' where t': "with_cumulative_fidelity scenario_M (Some 2) Loss = Inr t'"
    and d: "distinct (map cumulated_fidelity (results t'))"
    and s: "sorted (map (\<lambda>r. key_value (cumulated_fidelity r)) (results t'))" by blast
  have v: "map cumulated_fidelity (results t') = [Some 1, Some 3, Some 4]"
    "map loss (results t') = [0.9, 0.4, 0.8]"
    using scenario_M_cumulated t' by simp_all
  have c2: "\<exists>t'. with_cumulative_fidelity scenario_M (Some 2) Loss = Inr t' \<and>
      map cumulated_fidelity (results t') = [Some 1, Some 3, Some 4] \<and>
      map loss (results t') = [0.9, 0.4, 0.8] \<and>
      distinct (map cumulated_fidelity (results t')) \<and>
      sorted (map (\<lambda>r. key_value (cumulated_fidelity r)) (results t'))"
    by (rule exI[of _ t']) (intro conjI t' v d s)
  show ?thesis by (intro conjI h0 h1 c1 la c2)
qed

subsection \<open>Loading a unit without records\<close>

lemma load_neps_empty: "results_dir neps = Some [] \<Longrightarrow> load_neps neps = Inl ValueError"
  by (simp add: load_neps_def)

lemma load_neps_nonempty:
  "load_neps neps = Inr t \<Longrightarrow> results t \<noteq> []"
  by (auto simp: load_neps_def Let_def sort_key_Nil_iff split: option.splits if_splits)

lemma load_empty_neps_dir: "load empty_neps_dir = Inl ValueError"
  by (simp add: load_def empty_neps_dir_def load_neps_def)

text \<open>
  Claim C8. The first format refuses a results directory without records
  (\<open>load_neps_empty\<close>); the second does not: with both of its files empty,
  \<^verbatim>\<open>load_hpbandster\<close> returns the trace without records.
\<close>

theorem load_hpbandster_empty_returns_trace:
  "load empty_hpbandster_dir = Inr \<lparr>results = []\<rparr>"
  by (simp add: load_def empty_hpbandster_dir_def load_hpbandster_def dict_of_def)

subsection \<open>Rescaling an axis\<close>

















end
